theory Spec2Isabelle
  imports Complex_Main "HOL-Library.Product_Lexorder"
begin

chapter \<open>bluebookify: extraction, batching and splicing of citation corrections\<close>

section \<open>Strings\<close>

text \<open>
  A JavaScript string is a sequence of UTF-16 code units; every offset of the program
  (\<^verbatim>\<open>match.index\<close>, \<^verbatim>\<open>slice\<close>, \<^verbatim>\<open>length\<close>) counts code units. A code unit is
  modelled by its numeric value, a string by the list of its code units. \<open>js\<close> embeds an
  ASCII literal.
\<close>

type_synonym jschar = nat
type_synonym jsstring = "jschar list"

definition js :: "string \<Rightarrow> jsstring" where
  "js s = map of_char s"

text \<open>
  \<^verbatim>\<open>s.slice(a, b)\<close> for non-negative \<open>a\<close> and \<open>b\<close>: the code units from index \<open>a\<close> up to,
  not including, \<open>b\<close>, both clipped to the length; empty when \<open>b \<le> a\<close>.
  \<^verbatim>\<open>s.slice(a)\<close> is \<open>drop a s\<close>.
\<close>

definition slice :: "'a list \<Rightarrow> nat \<Rightarrow> nat \<Rightarrow> 'a list" where
  "slice s a b = take (b - a) (drop a s)"

text \<open>
  The class \<^verbatim>\<open>\s\<close> of a regular expression, which is also what \<^verbatim>\<open>trim\<close> and
  \<^verbatim>\<open>trimStart\<close> strip: ECMAScript's WhiteSpace and LineTerminator code points.
\<close>

definition is_space :: "jschar \<Rightarrow> bool" where
  "is_space c \<longleftrightarrow>
     c = 9 \<or> c = 10 \<or> c = 11 \<or> c = 12 \<or> c = 13 \<or> c = 32 \<or> c = 160 \<or> c = 5760 \<or>
     (8192 \<le> c \<and> c \<le> 8202) \<or> c = 8232 \<or> c = 8233 \<or> c = 8239 \<or> c = 8287 \<or>
     c = 12288 \<or> c = 65279"

definition is_digit :: "jschar \<Rightarrow> bool" where
  "is_digit c \<longleftrightarrow> 48 \<le> c \<and> c \<le> 57"

definition is_upper :: "jschar \<Rightarrow> bool" where
  "is_upper c \<longleftrightarrow> 65 \<le> c \<and> c \<le> 90"

definition is_lower :: "jschar \<Rightarrow> bool" where
  "is_lower c \<longleftrightarrow> 97 \<le> c \<and> c \<le> 122"

text \<open>The word characters of \<^verbatim>\<open>\b\<close>: \<^verbatim>\<open>[A-Za-z0-9_]\<close>.\<close>

definition is_word :: "jschar \<Rightarrow> bool" where
  "is_word c \<longleftrightarrow> is_upper c \<or> is_lower c \<or> is_digit c \<or> c = 95"

definition trimStart :: "jsstring \<Rightarrow> jsstring" where
  "trimStart s = dropWhile is_space s"

definition trimEnd :: "jsstring \<Rightarrow> jsstring" where
  "trimEnd s = rev (dropWhile is_space (rev s))"

definition trim :: "jsstring \<Rightarrow> jsstring" where
  "trim s = trimEnd (trimStart s)"

text \<open>Decimal rendering of a non-negative integer, as a template literal prints it.\<close>

fun show_nat :: "nat \<Rightarrow> jsstring" where
  "show_nat n = (if n < 10 then [48 + n] else show_nat (n div 10) @ [48 + n mod 10])"

text \<open>\<^verbatim>\<open>lines.join("\n")\<close>.\<close>

fun join_lines :: "jsstring list \<Rightarrow> jsstring" where
  "join_lines [] = []"
| "join_lines [l] = l"
| "join_lines (l # ls) = l @ [10] @ join_lines ls"


section \<open>Data model (types.ts)\<close>

text \<open>
  Field names follow the source; a name that is an Isabelle keyword or a HOL constant
  carries a prime (\<open>id'\<close>, \<open>end'\<close>, \<open>context'\<close>), and the fields of the smaller records
  carry a suffix, since record fields share one name space.
\<close>

record CitationContext =
  id' :: nat
  original :: jsstring
  before :: jsstring
  after :: jsstring
  start :: nat
  end' :: nat

text \<open>
  A correction comes out of \<^verbatim>\<open>JSON.parse\<close>: its id is any number a JSON literal
  denotes, not necessarily a whole one. A number is modelled by its value, a rational:
  every finite double is one. The literals beyond the range of the doubles denote
  \<^verbatim>\<open>Infinity\<close> and \<^verbatim>\<open>-Infinity\<close>, which stand as \<open>2 ^ 1024\<close> and \<open>- (2 ^ 1024)\<close>, values
  that no finite double has; ids are only compared for equality. Negative zero is
  the value 0: \<^verbatim>\<open>===\<close>, \<^verbatim>\<open>Set\<close> and \<^verbatim>\<open>Map\<close> do not tell it from zero.
\<close>

record CitationCorrection =
  id_c :: rat
  citation :: jsstring

record Correction =
  position :: nat
  original_c :: jsstring
  replacement :: jsstring
  context' :: jsstring

record ApplyResult =
  text_a :: jsstring
  appliedCorrections :: "Correction list"

record BluebookifyResult =
  text_r :: jsstring
  corrections :: "Correction list"
  unchanged :: bool

record Message =
  role :: jsstring
  content :: jsstring

text \<open>A value of \<^verbatim>\<open>JSON.parse\<close>. An object keeps its members in source order.\<close>

datatype json =
    JNull
  | JBool bool
  | JNum rat
  | JStr jsstring
  | JArr "json list"
  | JObj "(jsstring \<times> json) list"

text \<open>An option of type \<^verbatim>\<open>number\<close> as a caller can pass it.\<close>

datatype jsnumber = Finite rat | NaN | PosInfinity | NegInfinity

text \<open>
  Every \<^verbatim>\<open>throw\<close> of the program is a value of \<open>error\<close>, with the data its message
  prints. \<open>LlmError\<close> is a failure of the oracle call, \<open>ResolveError\<close> one of
  \<^verbatim>\<open>resolveLlm\<close>; both come from outside and carry an opaque message.
\<close>

datatype error =
    MissingOptions
  | InvalidInt jsstring jsnumber nat
  | ResolveError jsstring
  | LlmError jsstring
  | NoJsonArray jsstring
  | InvalidCorrection nat json
  | EmptyCitation nat rat
  | DuplicateCorrectionId rat nat
  | UnexpectedId rat
  | MissingBatchId nat
  | MissingCorrection nat
  | UnknownCorrectionId rat


section \<open>Regular expressions\<close>

text \<open>
  The extractor and the reply parser are written with regular expression literals. The
  patterns are part of the program; the matcher is the runtime's. It is modelled as the
  backtracking matcher of ECMA-262 restricted to what the patterns use: character
  classes, sequence, alternation (left alternative first), greedy repetition, and the
  assertions \<^verbatim>\<open>\b\<close>, \<^verbatim>\<open>^\<close> and \<^verbatim>\<open>$\<close> (no \<^verbatim>\<open>m\<close> flag).

  A position in the subject is a pair: the code units before it, nearest first, and the
  code units from it on. \<open>ends r z\<close> lists the positions at which a match of \<open>r\<close>
  started at \<open>z\<close> can end, in the order in which backtracking tries them; the match the
  runtime reports is the first.
\<close>

datatype re =
    Eps
  | Cls "jschar \<Rightarrow> bool"
  | Seq re re
  | Alt re re
  | Star re
  | WordB
  | Bol
  | Eol

type_synonym pos = "jsstring \<times> jsstring"

definition word_before :: "pos \<Rightarrow> bool" where
  "word_before z = (case fst z of [] \<Rightarrow> False | c # _ \<Rightarrow> is_word c)"

definition word_after :: "pos \<Rightarrow> bool" where
  "word_after z = (case snd z of [] \<Rightarrow> False | c # _ \<Rightarrow> is_word c)"

text \<open>
  Greedy repetition: one more iteration first, then stopping here. An iteration that
  consumes nothing is abandoned, as the runtime's repeat matcher does; so there are at
  most as many iterations as code units left, which is the bound \<open>n\<close>.
\<close>

primrec star_ends :: "(pos \<Rightarrow> pos list) \<Rightarrow> nat \<Rightarrow> pos \<Rightarrow> pos list" where
  "star_ends f 0 z = [z]"
| "star_ends f (Suc n) z =
     concat (map (\<lambda>z'. if length (snd z') < length (snd z) then star_ends f n z' else []) (f z))
     @ [z]"

primrec ends :: "re \<Rightarrow> pos \<Rightarrow> pos list" where
  "ends Eps z = [z]"
| "ends (Cls p) z =
     (case snd z of [] \<Rightarrow> [] | c # cs \<Rightarrow> if p c then [(c # fst z, cs)] else [])"
| "ends (Seq a b) z = concat (map (ends b) (ends a z))"
| "ends (Alt a b) z = ends a z @ ends b z"
| "ends (Star a) z = star_ends (ends a) (length (snd z)) z"
| "ends WordB z = (if word_before z \<noteq> word_after z then [z] else [])"
| "ends Bol z = (if fst z = [] then [z] else [])"
| "ends Eol z = (if snd z = [] then [z] else [])"

definition match_at :: "re \<Rightarrow> pos \<Rightarrow> pos option" where
  "match_at r z = (case ends r z of [] \<Rightarrow> None | z' # _ \<Rightarrow> Some z')"

text \<open>
  One \<^verbatim>\<open>exec\<close>: the first position from \<open>(pre, suf)\<close> on at which the pattern matches,
  with the end of that match. The position after the last code unit is tried too.
\<close>

fun find_from :: "re \<Rightarrow> jsstring \<Rightarrow> jsstring \<Rightarrow> (pos \<times> pos) option" where
  "find_from r pre [] =
     (case match_at r (pre, []) of None \<Rightarrow> None | Some z' \<Rightarrow> Some ((pre, []), z'))"
| "find_from r pre (c # cs) =
     (case match_at r (pre, c # cs) of
        None \<Rightarrow> find_from r (c # pre) cs
      | Some z' \<Rightarrow> Some ((pre, c # cs), z'))"

record PatternMatch =
  text_m :: jsstring
  start_m :: nat
  end_m :: nat

definition mk_match :: "pos \<Rightarrow> pos \<Rightarrow> PatternMatch" where
  "mk_match zs ze =
     \<lparr> text_m = take (length (fst ze) - length (fst zs)) (snd zs),
       start_m = length (fst zs), end_m = length (fst ze) \<rparr>"

text \<open>
  The loop \<^verbatim>\<open>while ((match = pattern.exec(text)) !== null) push(...)\<close> of a pattern with
  the \<^verbatim>\<open>g\<close> flag, from \<^verbatim>\<open>lastIndex\<close> = \<open>z\<close>. Each \<^verbatim>\<open>exec\<close> sets \<^verbatim>\<open>lastIndex\<close> to the end of
  its match; a match that leaves \<^verbatim>\<open>lastIndex\<close> where it was is found again for ever, and
  the loop does not return: that outcome is \<open>None\<close>.
\<close>

function exec_all :: "re \<Rightarrow> pos \<Rightarrow> PatternMatch list option" where
  "exec_all r z =
     (case find_from r (fst z) (snd z) of
        None \<Rightarrow> Some []
      | Some (zs, ze) \<Rightarrow>
          if length (snd ze) < length (snd z)
          then map_option (Cons (mk_match zs ze)) (exec_all r ze)
          else None)"
  by pat_completeness auto
termination
  by (relation "measure (\<lambda>(r, z). length (snd z))") auto

declare exec_all.simps [simp del]

definition matchAll :: "re \<Rightarrow> jsstring \<Rightarrow> PatternMatch list option" where
  "matchAll r s = exec_all r ([], s)"

text \<open>\<^verbatim>\<open>s.search(r)\<close>: the index of the first match, \<open>None\<close> for \<^verbatim>\<open>-1\<close>.\<close>

definition search :: "re \<Rightarrow> jsstring \<Rightarrow> nat option" where
  "search r s = map_option (\<lambda>(zs, ze). length (fst zs)) (find_from r [] s)"

text \<open>\<^verbatim>\<open>s.replace(r, "")\<close> for a pattern without the \<^verbatim>\<open>g\<close> flag: the first match is cut out.\<close>

definition remove_first :: "re \<Rightarrow> jsstring \<Rightarrow> jsstring" where
  "remove_first r s =
     (case find_from r [] s of None \<Rightarrow> s | Some (zs, ze) \<Rightarrow> rev (fst zs) @ snd ze)"

subsection \<open>Pattern notation\<close>

definition chr :: "jschar \<Rightarrow> re" where
  "chr c = Cls (\<lambda>x. x = c)"

definition lit :: "jsstring \<Rightarrow> re" where
  "lit s = foldr (\<lambda>c r. Seq (chr c) r) s Eps"

definition Plus :: "re \<Rightarrow> re" where
  "Plus r = Seq r (Star r)"

definition Opt :: "re \<Rightarrow> re" where
  "Opt r = Alt r Eps"

definition seqs :: "re list \<Rightarrow> re" where
  "seqs rs = foldr Seq rs Eps"

definition alts :: "re \<Rightarrow> re list \<Rightarrow> re" where
  "alts r rs = foldl Alt r rs"

definition ws :: re where
  "ws = Cls is_space"

definition digit :: re where
  "digit = Cls is_digit"


section \<open>The span extractor (extractor.ts)\<close>

subsection \<open>The patterns\<close>

text \<open>\<^verbatim>\<open>[A-Z][A-Za-z'.]+\<close> and \<^verbatim>\<open>[A-Z][A-Za-z'.]+(?:\s+[A-Z][A-Za-z'.]+)*\<close>.\<close>

definition NAME :: re where
  "NAME = Seq (Cls is_upper) (Plus (Cls (\<lambda>c. is_upper c \<or> is_lower c \<or> c = 39 \<or> c = 46)))"

definition NAMES :: re where
  "NAMES = Seq NAME (Star (Seq (Plus ws) NAME))"

text \<open>
  \<^verbatim>\<open>(?:U\.S\.|S\.\s*Ct\.|L\.\s*Ed\.(?:\s*2d)?|F\.(?:2d|3d|4th)|F\.\s*Supp\.(?:\s*(?:2d|3d))?|F\.\s*App'x)\<close>
\<close>

definition REPORTER :: re where
  "REPORTER = alts (lit (js ''U.S.''))
     [seqs [lit (js ''S.''), Star ws, lit (js ''Ct.'')],
      seqs [lit (js ''L.''), Star ws, lit (js ''Ed.''), Opt (Seq (Star ws) (lit (js ''2d'')))],
      seqs [lit (js ''F.''), alts (lit (js ''2d'')) [lit (js ''3d''), lit (js ''4th'')]],
      seqs [lit (js ''F.''), Star ws, lit (js ''Supp.''),
            Opt (Seq (Star ws) (Alt (lit (js ''2d'')) (lit (js ''3d''))))],
      seqs [lit (js ''F.''), Star ws, lit (js ''App''), chr 39, chr 120]]"

text \<open>
  \<^verbatim>\<open>NAMES\s+v\.\s+NAMES,?\s+\d+\s+REPORTER\s+\d+(?:,\s*\d+)?(?:\s*\([^)]*\d{4}\))?\<close>
\<close>

definition CASE_RE :: re where
  "CASE_RE = seqs [NAMES, Plus ws, lit (js ''v.''), Plus ws, NAMES, Opt (chr 44), Plus ws,
                   Plus digit, Plus ws, REPORTER, Plus ws, Plus digit,
                   Opt (seqs [chr 44, Star ws, Plus digit]),
                   Opt (seqs [Star ws, chr 40, Star (Cls (\<lambda>c. c \<noteq> 41)),
                              digit, digit, digit, digit, chr 41])]"

text \<open>
  \<^verbatim>\<open>\d+\s+(?:U\.S\.C\.|C\.F\.R\.)\s*\<section>+\s*[\d]+(?:\.\d+)?(?:\([a-zA-Z0-9]+\))*(?:(?:\u2013|-)[\d]+(?:\.\d+)?)?\<close>
  (the section sign is code unit 167, the en dash 8211).
\<close>

definition STATUTE_RE :: re where
  "STATUTE_RE = seqs [Plus digit, Plus ws, Alt (lit (js ''U.S.C.'')) (lit (js ''C.F.R.'')),
                      Star ws, Plus (chr 167), Star ws, Plus digit,
                      Opt (Seq (chr 46) (Plus digit)),
                      Star (seqs [chr 40,
                                  Plus (Cls (\<lambda>c. is_lower c \<or> is_upper c \<or> is_digit c)),
                                  chr 41]),
                      Opt (seqs [Alt (chr 8211) (chr 45), Plus digit,
                                 Opt (Seq (chr 46) (Plus digit))])]"

text \<open>\<^verbatim>\<open>[A-Z][A-Za-z'.]+,\s+\d+\s+REPORTER\s+at\s+\d+\<close>\<close>

definition SHORT_FORM_RE :: re where
  "SHORT_FORM_RE = seqs [NAME, chr 44, Plus ws, Plus digit, Plus ws, REPORTER, Plus ws,
                         lit (js ''at''), Plus ws, Plus digit]"

text \<open>\<^verbatim>\<open>\bId\.(?:\s+at\s+\d+(?:[,\u2013-]\s*\d+)?)?\<close>\<close>

definition ID_RE :: re where
  "ID_RE = seqs [WordB, lit (js ''Id.''),
                 Opt (seqs [Plus ws, lit (js ''at''), Plus ws, Plus digit,
                            Opt (seqs [Cls (\<lambda>c. c = 44 \<or> c = 8211 \<or> c = 45),
                                       Star ws, Plus digit])])]"

text \<open>
  \<^verbatim>\<open>\b(?:See\s+also|But\s+see|But\s+cf\.|See,?\s+e\.g\.,|See|Cf\.|Accord,?|Compare|E\.g\.,)\s\<close>
\<close>

definition SIGNAL_RE :: re where
  "SIGNAL_RE = seqs [WordB,
      alts (seqs [lit (js ''See''), Plus ws, lit (js ''also'')])
        [seqs [lit (js ''But''), Plus ws, lit (js ''see'')],
         seqs [lit (js ''But''), Plus ws, lit (js ''cf.'')],
         seqs [lit (js ''See''), Opt (chr 44), Plus ws, lit (js ''e.g.,'')],
         lit (js ''See''),
         lit (js ''Cf.''),
         seqs [lit (js ''Accord''), Opt (chr 44)],
         lit (js ''Compare''),
         lit (js ''E.g.,'')],
      ws]"

text \<open>\<^verbatim>\<open>/\s/\<close> and \<^verbatim>\<open>/\s[^\s]*$/\<close>, the two patterns of the context trimming.\<close>

definition WS_RE :: re where
  "WS_RE = Cls is_space"

definition TRAIL_RE :: re where
  "TRAIL_RE = Seq (Cls is_space) (Seq (Star (Cls (\<lambda>c. \<not> is_space c))) Eol)"

subsection \<open>extractCitations\<close>

text \<open>
  \<^verbatim>\<open>allMatches.sort((a, b) => a.start - b.start || b.end - a.end)\<close>: a stable sort by
  start ascending, then end descending.
\<close>

definition sort_matches :: "PatternMatch list \<Rightarrow> PatternMatch list" where
  "sort_matches ms = sort_key (\<lambda>m. (start_m m, - int (end_m m))) ms"

text \<open>One turn of the merge loop; \<open>last merged\<close> is \<^verbatim>\<open>merged[merged.length - 1]\<close>.\<close>

definition merge_step :: "jsstring \<Rightarrow> PatternMatch list \<Rightarrow> PatternMatch \<Rightarrow> PatternMatch list" where
  "merge_step text merged m =
     (if merged \<noteq> [] \<and> start_m m \<le> end_m (last merged)
      then (if end_m m > end_m (last merged)
            then butlast merged @
                 [(last merged)\<lparr> end_m := end_m m,
                                  text_m := slice text (start_m (last merged)) (end_m m) \<rparr>]
            else merged)
      else merged @ [m])"

text \<open>
  One turn of the inner loop of the signal fusion:
  \<^verbatim>\<open>signal.end === citation.start || signal.end === citation.start - 1\<close>.
\<close>

definition fuse_step :: "jsstring \<Rightarrow> PatternMatch \<Rightarrow> PatternMatch \<Rightarrow> PatternMatch" where
  "fuse_step text cit signal =
     (if end_m signal = start_m cit \<or> int (end_m signal) = int (start_m cit) - 1
      then cit\<lparr> start_m := start_m signal,
                text_m := slice text (start_m signal) (end_m cit) \<rparr>
      else cit)"

text \<open>
  The body of the last loop, for the span \<open>m\<close> and the running \<^verbatim>\<open>id\<close> \<open>i\<close>.
  \<^verbatim>\<open>Math.max(0, start - contextSize)\<close> is the truncating subtraction of \<open>nat\<close>.
\<close>

definition mk_context :: "jsstring \<Rightarrow> nat \<Rightarrow> nat \<Rightarrow> PatternMatch \<Rightarrow> CitationContext" where
  "mk_context text contextSize i m =
     (let bStart = start_m m - contextSize;
          before0 = slice text bStart (start_m m);
          before1 = (if bStart > 0
                     then (case search WS_RE before0 of
                             Some idx \<Rightarrow> trimStart (drop idx before0)
                           | None \<Rightarrow> before0)
                     else before0);
          aEnd = min (length text) (end_m m + contextSize);
          after0 = slice text (end_m m) aEnd;
          after1 = (if aEnd < length text
                    then (case search TRAIL_RE after0 of
                            Some idx \<Rightarrow> if idx > 0 then slice after0 0 idx else after0
                          | None \<Rightarrow> after0)
                    else after0)
      in \<lparr> id' = i, original = text_m m, before = before1, after = after1,
           start = start_m m, end' = end_m m \<rparr>)"

text \<open>
  \<open>contextSize\<close> is a natural number: the entry point validates it before the call.
  The result is \<open>None\<close> when a matching loop does not return.
\<close>

definition extractCitations :: "jsstring \<Rightarrow> nat \<Rightarrow> CitationContext list option" where
  "extractCitations text contextSize =
     (case matchAll CASE_RE text of None \<Rightarrow> None | Some m1 \<Rightarrow>
      case matchAll STATUTE_RE text of None \<Rightarrow> None | Some m2 \<Rightarrow>
      case matchAll SHORT_FORM_RE text of None \<Rightarrow> None | Some m3 \<Rightarrow>
      case matchAll ID_RE text of None \<Rightarrow> None | Some m4 \<Rightarrow>
      case matchAll SIGNAL_RE text of None \<Rightarrow> None | Some signals \<Rightarrow>
        (let allMatches = sort_matches (m1 @ m2 @ m3 @ m4);
             merged = foldl (merge_step text) [] allMatches;
             fused = map (\<lambda>cit. foldl (fuse_step text) cit signals) merged
         in Some (map (\<lambda>(i, m). mk_context text contextSize i m) (enumerate 0 fused))))"


section \<open>JSON.parse\<close>

text \<open>
  \<^verbatim>\<open>JSON.parse\<close> belongs to the runtime. It is modelled as a recursive-descent parser of
  the JSON grammar (ECMA-404): \<open>None\<close> is the \<^verbatim>\<open>SyntaxError\<close>. A parser returns the
  value and the input left.
\<close>

definition json_ws :: "jschar \<Rightarrow> bool" where
  "json_ws c \<longleftrightarrow> c = 32 \<or> c = 9 \<or> c = 10 \<or> c = 13"

definition skip_ws :: "jsstring \<Rightarrow> jsstring" where
  "skip_ws s = dropWhile json_ws s"

definition hexval :: "jschar \<Rightarrow> nat option" where
  "hexval c =
     (if is_digit c then Some (c - 48)
      else if 97 \<le> c \<and> c \<le> 102 then Some (c - 87)
      else if 65 \<le> c \<and> c \<le> 70 then Some (c - 55)
      else None)"

text \<open>The character after a backslash, other than \<^verbatim>\<open>u\<close>.\<close>

definition unescape :: "jschar \<Rightarrow> jschar option" where
  "unescape e =
     (if e = 34 \<or> e = 92 \<or> e = 47 then Some e
      else if e = 98 then Some 8
      else if e = 102 then Some 12
      else if e = 110 then Some 10
      else if e = 114 then Some 13
      else if e = 116 then Some 9
      else None)"

text \<open>
  An escape after its backslash: the code unit it stands for and the input left.
  \<^verbatim>\<open>\uXXXX\<close> is the code unit \<^verbatim>\<open>XXXX\<close>.
\<close>

definition parse_escape :: "jsstring \<Rightarrow> (jschar \<times> jsstring) option" where
  "parse_escape r =
     (case r of
        [] \<Rightarrow> None
      | e # r' \<Rightarrow>
          if e = 117 then
            (case r' of
               h1 # h2 # h3 # h4 # r'' \<Rightarrow>
                 (case (hexval h1, hexval h2, hexval h3, hexval h4) of
                    (Some a, Some b, Some c, Some d) \<Rightarrow>
                      Some (((a * 16 + b) * 16 + c) * 16 + d, r'')
                  | _ \<Rightarrow> None)
             | _ \<Rightarrow> None)
          else (case unescape e of Some x \<Rightarrow> Some (x, r') | None \<Rightarrow> None))"

lemma parse_escape_length [termination_simp]:
  "parse_escape r = Some (x, r') \<Longrightarrow> length r' < length r"
  by (auto simp: parse_escape_def split: list.splits if_splits option.splits)

text \<open>
  A string after its opening quote; \<open>acc\<close> holds the code units read, last first. A
  control character (below 32) is not allowed unescaped.
\<close>

fun parse_string :: "jsstring \<Rightarrow> jsstring \<Rightarrow> (jsstring \<times> jsstring) option" where
  "parse_string [] acc = None"
| "parse_string (c # r) acc =
     (if c = 34 then Some (rev acc, r)
      else if c = 92 then
        (case parse_escape r of
           None \<Rightarrow> None
         | Some (x, r') \<Rightarrow> parse_string r' (x # acc))
      else if c < 32 then None
      else parse_string r (c # acc))"

definition digits_val :: "jsstring \<Rightarrow> nat" where
  "digits_val ds = foldl (\<lambda>a d. a * 10 + (d - 48)) 0 ds"

text \<open>
  \<^verbatim>\<open>JSON.parse\<close> gives a literal the double nearest to the number it denotes, ties
  going to the double with an even significand. \<open>bit_length n\<close> is the number of binary
  digits of \<open>n\<close>; \<open>binade a\<close>, for \<open>a > 0\<close>, is the \<open>e\<close> with \<open>2 ^ e \<le> a < 2 ^ (e + 1)\<close>.
  The doubles of a binade are \<open>2 ^ (e - 52)\<close> apart, those below \<open>2 ^ - 1022\<close> are
  \<open>2 ^ - 1074\<close> apart, and what rounds to \<open>2 ^ 1024\<close> or more is infinite.
\<close>

fun bit_length :: "nat \<Rightarrow> nat" where
  "bit_length n = (if n = 0 then 0 else Suc (bit_length (n div 2)))"

declare bit_length.simps [simp del]

definition binade :: "rat \<Rightarrow> int" where
  "binade a =
     (if 1 \<le> a then int (bit_length (nat \<lfloor>a\<rfloor>)) - 1
      else - int (bit_length (nat (\<lceil>1 / a\<rceil> - 1))))"

definition round_half_even :: "rat \<Rightarrow> int" where
  "round_half_even x =
     (let f = \<lfloor>x\<rfloor>; d = x - of_int f
      in if d < 1 / 2 then f
         else if 1 / 2 < d then f + 1
         else if even f then f else f + 1)"

definition round_double :: "rat \<Rightarrow> rat" where
  "round_double q =
     (if q = 0 then 0
      else (let a = \<bar>q\<bar>;
                e = max (binade a) (- 1022);
                ulp = (if 52 \<le> e then 2 ^ nat (e - 52) else 1 / 2 ^ nat (52 - e));
                r = of_int (round_half_even (a / ulp)) * ulp
            in sgn q * (if 2 ^ 1024 \<le> r then 2 ^ 1024 else r)))"

text \<open>
  A number: \<^verbatim>\<open>-? (0 | [1-9][0-9]*) (. [0-9]+)? ([eE] [+-]? [0-9]+)?\<close>. The digits of
  the integer part are read greedily; an integer part with a leading zero is refused
  here, where the grammar would stop after the zero and fail on the next digit. The
  value is the double of the number the literal denotes.
\<close>

definition parse_number :: "jsstring \<Rightarrow> (rat \<times> jsstring) option" where
  "parse_number s =
     (let neg = (case s of [] \<Rightarrow> False | c # _ \<Rightarrow> c = 45);
          s1 = (if neg then tl s else s);
          ip = takeWhile is_digit s1;
          s2 = dropWhile is_digit s1
      in if ip = [] \<or> (length ip > 1 \<and> hd ip = 48) then None
         else
           (let has_frac = (case s2 of [] \<Rightarrow> False | c # _ \<Rightarrow> c = 46);
                fp = (if has_frac then takeWhile is_digit (tl s2) else []);
                s3 = (if has_frac then dropWhile is_digit (tl s2) else s2)
            in if has_frac \<and> fp = [] then None
               else
                 (let has_exp = (case s3 of [] \<Rightarrow> False | c # _ \<Rightarrow> c = 101 \<or> c = 69);
                      s4 = (if has_exp then tl s3 else s3);
                      eneg = (case s4 of [] \<Rightarrow> False | c # _ \<Rightarrow> has_exp \<and> c = 45);
                      s5 = (if has_exp \<and> (case s4 of [] \<Rightarrow> False | c # _ \<Rightarrow> c = 45 \<or> c = 43)
                            then tl s4 else s4);
                      ep = (if has_exp then takeWhile is_digit s5 else []);
                      s6 = (if has_exp then dropWhile is_digit s5 else s3);
                      mant = (of_nat (digits_val (ip @ fp)) :: rat) / 10 ^ length fp;
                      scaled = (if eneg then mant / 10 ^ digits_val ep
                                else mant * 10 ^ digits_val ep)
                  in if has_exp \<and> ep = [] then None
                     else Some (round_double (if neg then - scaled else scaled), s6))))"

definition parse_literal :: "jsstring \<Rightarrow> json \<Rightarrow> jsstring \<Rightarrow> (json \<times> jsstring) option" where
  "parse_literal w v s =
     (if take (length w) s = w then Some (v, drop (length w) s) else None)"

lemma skip_ws_length [termination_simp]: "length (skip_ws s) \<le> length s"
  by (simp add: skip_ws_def length_dropWhile_le)

lemma skip_ws_Cons_length [termination_simp]:
  "skip_ws s = c # r \<Longrightarrow> length r < length s"
  using skip_ws_length [of s] by simp

lemma parse_string_length:
  "parse_string s acc = Some (k, r) \<Longrightarrow> length r < length s"
proof (induction s acc rule: parse_string.induct)
  case (1 acc)
  then show ?case by simp
next
  case (2 c r' acc)
  show ?case
  proof (cases "c = 34")
    case True
    then show ?thesis using "2.prems" by simp
  next
    case False
    show ?thesis
    proof (cases "c = 92")
      case True
      then obtain x r'' where e: "parse_escape r' = Some (x, r'')"
        and p: "parse_string r'' (x # acc) = Some (k, r)"
        using "2.prems" by (auto split: option.splits)
      have "length r < length r''" using "2.IH"(1) [OF False True e refl p] .
      moreover have "length r'' < length r'" using e by (rule parse_escape_length)
      ultimately show ?thesis by simp
    next
      case c92: False
      then have "\<not> c < 32" and p: "parse_string r' (c # acc) = Some (k, r)"
        using "2.prems" False by (auto split: if_splits)
      then have "length r < length r'" using "2.IH"(2) [OF False c92] by simp
      then show ?thesis by simp
    qed
  qed
qed

text \<open>
  \<open>parse_elements\<close> reads a non-empty array from its first element on, \<open>parse_members\<close>
  a non-empty object from its first key on; \<open>acc\<close> holds what was read, last first.
  The tests \<open>length r < length s\<close> always succeed (\<open>parse_value_length\<close> below): a value
  is at least one code unit.
\<close>

function parse_value :: "jsstring \<Rightarrow> (json \<times> jsstring) option"
  and parse_elements :: "jsstring \<Rightarrow> json list \<Rightarrow> (json \<times> jsstring) option"
  and parse_members :: "jsstring \<Rightarrow> (jsstring \<times> json) list \<Rightarrow> (json \<times> jsstring) option"
where
  "parse_value s =
     (case s of
        [] \<Rightarrow> None
      | c # r \<Rightarrow>
          if c = 91 then
            (case skip_ws r of
               [] \<Rightarrow> None
             | d # r' \<Rightarrow> if d = 93 then Some (JArr [], r') else parse_elements (skip_ws r) [])
          else if c = 123 then
            (case skip_ws r of
               [] \<Rightarrow> None
             | d # r' \<Rightarrow> if d = 125 then Some (JObj [], r') else parse_members (skip_ws r) [])
          else if c = 34 then
            (case parse_string r [] of
               None \<Rightarrow> None
             | Some (str, r') \<Rightarrow> Some (JStr str, r'))
          else if c = 45 \<or> is_digit c then
            (case parse_number s of
               None \<Rightarrow> None
             | Some (q, r') \<Rightarrow> Some (JNum q, r'))
          else if c = 116 then parse_literal (js ''true'') (JBool True) s
          else if c = 102 then parse_literal (js ''false'') (JBool False) s
          else if c = 110 then parse_literal (js ''null'') JNull s
          else None)"
| "parse_elements s acc =
     (case parse_value s of
        None \<Rightarrow> None
      | Some (v, r) \<Rightarrow>
          if length r < length s then
            (case skip_ws r of
               [] \<Rightarrow> None
             | d # r' \<Rightarrow>
                 if d = 44 then parse_elements (skip_ws r') (v # acc)
                 else if d = 93 then Some (JArr (rev (v # acc)), r')
                 else None)
          else None)"
| "parse_members s acc =
     (case s of
        [] \<Rightarrow> None
      | q # r \<Rightarrow>
          if q = 34 then
            (case parse_string r [] of
               None \<Rightarrow> None
             | Some (k, r1) \<Rightarrow>
                 (case skip_ws r1 of
                    [] \<Rightarrow> None
                  | d # r2 \<Rightarrow>
                      if d = 58 then
                        (case parse_value (skip_ws r2) of
                           None \<Rightarrow> None
                         | Some (v, r3) \<Rightarrow>
                             if length r3 < length s then
                               (case skip_ws r3 of
                                  [] \<Rightarrow> None
                                | e # r4 \<Rightarrow>
                                    if e = 44 then parse_members (skip_ws r4) ((k, v) # acc)
                                    else if e = 125 then Some (JObj (rev ((k, v) # acc)), r4)
                                    else None)
                             else None)
                      else None))
          else None)"
  by pat_completeness auto
termination
  apply (relation "measure (\<lambda>x. case x of
                     Inl s \<Rightarrow> 2 * length s
                   | Inr (Inl (s, acc)) \<Rightarrow> 2 * length s + 1
                   | Inr (Inr (s, acc)) \<Rightarrow> 2 * length s + 1)")
      apply auto
  subgoal premises p for r d r'
    using skip_ws_Cons_length [OF p(1)] by simp
  subgoal premises p for r d r'
    using skip_ws_Cons_length [OF p(1)] by simp
  subgoal premises p for s v r r'
    using skip_ws_Cons_length [OF p(3)] skip_ws_length [of r'] p(2) by simp
  subgoal premises p for r k r1 r2
    using parse_string_length [OF p(1)] skip_ws_Cons_length [OF p(2)] skip_ws_length [of r2]
    by simp
  subgoal premises p for r k r1 r2 v r3 r4
    using skip_ws_Cons_length [OF p(5)] skip_ws_length [of r4] p(4) by simp
  done

declare parse_value.simps [simp del] parse_elements.simps [simp del] parse_members.simps [simp del]

text \<open>\<^verbatim>\<open>JSON.parse(s)\<close>: one value, white space around it, and nothing else.\<close>

definition JSON_parse :: "jsstring \<Rightarrow> json option" where
  "JSON_parse s =
     (case parse_value (skip_ws s) of
        None \<Rightarrow> None
      | Some (v, r) \<Rightarrow> if skip_ws r = [] then Some v else None)"


section \<open>The reply parser (replacer.ts, parseResponse)\<close>

text \<open>
  \<^verbatim>\<open>/^```(?:json)?\s*\n?/i\<close> and \<^verbatim>\<open>/\n?```\s*$/\<close>. Under the \<^verbatim>\<open>i\<close> flag a letter
  matches in either case; the backtick is code unit 96.
\<close>

definition ci :: "jschar \<Rightarrow> jschar \<Rightarrow> re" where
  "ci lower upper = Cls (\<lambda>x. x = lower \<or> x = upper)"

definition FENCE_OPEN_RE :: re where
  "FENCE_OPEN_RE = seqs [Bol, lit [96, 96, 96],
                         Opt (seqs [ci 106 74, ci 115 83, ci 111 79, ci 110 78]),
                         Star ws, Opt (chr 10)]"

definition FENCE_CLOSE_RE :: re where
  "FENCE_CLOSE_RE = seqs [Opt (chr 10), lit [96, 96, 96], Star ws, Eol]"

definition clean :: "jsstring \<Rightarrow> jsstring" where
  "clean response = trim (remove_first FENCE_CLOSE_RE (remove_first FENCE_OPEN_RE (trim response)))"

text \<open>\<^verbatim>\<open>cleaned.lastIndexOf("]")\<close>, \<open>None\<close> for \<^verbatim>\<open>-1\<close>.\<close>

definition lastIndexOf :: "jschar \<Rightarrow> jsstring \<Rightarrow> nat option" where
  "lastIndexOf c s = find (\<lambda>i. s ! i = c) (rev [0..<length s])"

text \<open>
  The fallback loop \<^verbatim>\<open>for (let i = 0; i < end; i++)\<close> over the indices left: the first
  \<^verbatim>\<open>[\<close> from which the text through \<open>e\<close> parses to an array.
\<close>

fun bracket_scan :: "jsstring \<Rightarrow> nat \<Rightarrow> nat list \<Rightarrow> json list option" where
  "bracket_scan cleaned e [] = None"
| "bracket_scan cleaned e (i # rest) =
     (if cleaned ! i \<noteq> 91 then bracket_scan cleaned e rest
      else (case JSON_parse (slice cleaned i (e + 1)) of
              Some (JArr xs) \<Rightarrow> Some xs
            | _ \<Rightarrow> bracket_scan cleaned e rest))"

text \<open>The value of \<^verbatim>\<open>parsed\<close> after both attempts; \<open>None\<close> is \<^verbatim>\<open>undefined\<close>.\<close>

definition find_array :: "jsstring \<Rightarrow> json list option" where
  "find_array cleaned =
     (case JSON_parse cleaned of
        Some (JArr xs) \<Rightarrow> Some xs
      | _ \<Rightarrow> (case lastIndexOf 93 cleaned of
                None \<Rightarrow> None
              | Some e \<Rightarrow> bracket_scan cleaned e [0..<e]))"

text \<open>\<^verbatim>\<open>rec.id\<close>, \<^verbatim>\<open>rec.citation\<close>: of a repeated key \<^verbatim>\<open>JSON.parse\<close> keeps the last value.\<close>

definition property :: "(jsstring \<times> json) list \<Rightarrow> jsstring \<Rightarrow> json option" where
  "property members k = map_of (rev members) k"

text \<open>
  The callback of \<^verbatim>\<open>parsed.map\<close>, run over the items left from index \<open>idx\<close> on with the
  set \<^verbatim>\<open>seenIds\<close>. The first item that throws ends the run.
\<close>

fun validate_items :: "nat \<Rightarrow> rat set \<Rightarrow> json list \<Rightarrow> error + CitationCorrection list" where
  "validate_items idx seenIds [] = Inr []"
| "validate_items idx seenIds (item # rest) =
     (case item of
        JObj members \<Rightarrow>
          (case (property members (js ''id''), property members (js ''citation'')) of
             (Some (JNum n), Some (JStr s)) \<Rightarrow>
               if trim s = [] then Inl (EmptyCitation idx n)
               else if n \<in> seenIds then Inl (DuplicateCorrectionId n idx)
               else (case validate_items (idx + 1) (insert n seenIds) rest of
                       Inl e \<Rightarrow> Inl e
                     | Inr cs \<Rightarrow> Inr (\<lparr> id_c = n, citation = s \<rparr> # cs))
           | _ \<Rightarrow> Inl (InvalidCorrection idx item))
      | _ \<Rightarrow> Inl (InvalidCorrection idx item))"

text \<open>
  The branch \<^verbatim>\<open>"LLM response is not a JSON array"\<close> of the source cannot be taken:
  \<^verbatim>\<open>parsed\<close> is an array or \<^verbatim>\<open>undefined\<close>.
\<close>

definition parseResponse :: "jsstring \<Rightarrow> error + CitationCorrection list" where
  "parseResponse response =
     (let cleaned = clean response
      in case find_array cleaned of
           None \<Rightarrow> Inl (NoJsonArray (slice cleaned 0 200))
         | Some parsed \<Rightarrow> validate_items 0 {} parsed)"


section \<open>The request (prompt.ts)\<close>

definition dq :: jsstring where
  "dq = [34]"

definition system_prompt :: "jsstring \<Rightarrow> jsstring" where
  "system_prompt ruleBlock = join_lines
     [js ''You are a legal citation expert specializing in Bluebook format (The Bluebook: A Uniform System of Citation).'',
      ruleBlock,
      js ''Your task is to correct each citation below to proper Bluebook format.'',
      [],
      js ''Key Bluebook rules to apply:'',
      js ''- Case names italicized (use *asterisks* for italic markers)'',
      js ''- Proper reporter abbreviations with correct spacing (e.g., '' @ dq @ js ''F.3d'' @ dq
        @ js '' not '' @ dq @ js ''F. 3d'' @ dq @ js '')'',
      js ''- Correct use of '' @ dq @ js ''v.'' @ dq @ js '' (not '' @ dq @ js ''vs.'' @ dq
        @ js '' or '' @ dq @ js ''vs'' @ dq @ js '')'',
      js ''- Proper pincite format with comma separators'',
      js ''- Proper short-form citations (Id. rules)'',
      js ''- Correct section symbols and spacing for statutes'',
      js ''- Proper parenthetical format for court and year'',
      [],
      js ''IMPORTANT: You must return exactly one entry for every id provided. Do not skip any.'',
      js ''If a citation is already correctly formatted, return it unchanged.'',
      js ''Respond with ONLY a JSON array. No explanation, no markdown fences.'',
      js ''Format: [{'' @ dq @ js ''id'' @ dq @ js '':0,'' @ dq @ js ''citation'' @ dq @ js '':''
        @ dq @ js ''*Marbury v. Madison*, 5 U.S. (1 Cranch) 137 (1803)'' @ dq @ js ''}]'']"

text \<open>One line of the data message; 8220 and 8221 are the curly quotes.\<close>

definition user_line :: "CitationContext \<Rightarrow> jsstring" where
  "user_line ctx =
     [91] @ show_nat (id' ctx) @ js ''] '' @ [8220] @ before ctx @ [8221]
     @ js '' ['' @ original ctx @ js ''] '' @ [8220] @ after ctx @ [8221]"

text \<open>\<open>rules\<close> is \<open>None\<close> for \<^verbatim>\<open>undefined\<close>; an empty string is falsy too.\<close>

definition buildMessages :: "CitationContext list \<Rightarrow> jsstring option \<Rightarrow> Message list" where
  "buildMessages contexts rules =
     (let ruleBlock = (case rules of
                         None \<Rightarrow> []
                       | Some r \<Rightarrow> if r = [] then [] else [10] @ r @ [10])
      in [\<lparr> role = js ''system'', content = system_prompt ruleBlock \<rparr>,
          \<lparr> role = js ''user'', content = join_lines (map user_line contexts) \<rparr>])"


section \<open>The applier (replacer.ts, applyCorrections)\<close>

text \<open>The \<^verbatim>\<open>Map\<close> from id to replacement: a later correction of an id overwrites.\<close>

definition correctionMap :: "CitationCorrection list \<Rightarrow> rat \<Rightarrow> jsstring option" where
  "correctionMap corrs = foldl (\<lambda>m c. m(id_c c \<mapsto> citation c)) Map.empty corrs"

text \<open>
  The loop that collects \<^verbatim>\<open>changes\<close>. It runs after the validation, so every context
  has a replacement; the branch \<open>None\<close> is not reachable.
\<close>

fun effective_changes ::
  "CitationContext list \<Rightarrow> (rat \<Rightarrow> jsstring option) \<Rightarrow> (CitationContext \<times> jsstring) list" where
  "effective_changes [] m = []"
| "effective_changes (ctx # rest) m =
     (case m (of_nat (id' ctx)) of
        None \<Rightarrow> effective_changes rest m
      | Some r \<Rightarrow> if r \<noteq> original ctx then (ctx, r) # effective_changes rest m
                 else effective_changes rest m)"

text \<open>\<^verbatim>\<open>result.slice(0, ctx.start) + replacement + result.slice(ctx.end)\<close>\<close>

definition splice :: "jsstring \<Rightarrow> CitationContext \<times> jsstring \<Rightarrow> jsstring" where
  "splice result ch = slice result 0 (start (fst ch)) @ snd ch @ drop (end' (fst ch)) result"

text \<open>The audit record of one change; 8594 is the arrow.\<close>

definition audit :: "CitationContext \<times> jsstring \<Rightarrow> Correction" where
  "audit ch =
     (let ctx = fst ch; r = snd ch;
          snippetBefore = drop (length (before ctx) - 30) (before ctx);
          snippetAfter = slice (after ctx) 0 30
      in \<lparr> position = start ctx, original_c = original ctx, replacement = r,
           context' = snippetBefore @ [91] @ original ctx @ [8594] @ r @ [93] @ snippetAfter \<rparr>)"

text \<open>
  The two validation loops run over the ids in insertion order, so the error names the
  first offending id. \<^verbatim>\<open>changes.sort((a, b) => b.context.start - a.context.start)\<close> is
  a stable sort by start, descending.
\<close>

definition applyCorrections ::
  "jsstring \<Rightarrow> CitationContext list \<Rightarrow> CitationCorrection list \<Rightarrow> error + ApplyResult" where
  "applyCorrections text contexts corrs =
     (let m = correctionMap corrs;
          contextIds = map id' contexts
      in case find (\<lambda>i. m (of_nat i) = None) contextIds of
           Some i \<Rightarrow> Inl (MissingCorrection i)
         | None \<Rightarrow>
            (case find (\<lambda>k. k \<notin> of_nat ` set contextIds) (map id_c corrs) of
               Some k \<Rightarrow> Inl (UnknownCorrectionId k)
             | None \<Rightarrow>
                (let changes = sort_key (\<lambda>ch. - int (start (fst ch))) (effective_changes contexts m)
                 in Inr \<lparr> text_a = foldl splice text changes,
                          appliedCorrections = rev (map audit changes) \<rparr>)))"


section \<open>The pipeline (core.ts)\<close>

definition requireInt :: "jsnumber \<Rightarrow> jsstring \<Rightarrow> nat \<Rightarrow> error + nat" where
  "requireInt v name lo =
     (case v of
        Finite q \<Rightarrow>
          if q < of_nat lo \<or> of_int \<lfloor>q\<rfloor> \<noteq> q then Inl (InvalidInt name v lo)
          else Inr (nat \<lfloor>q\<rfloor>)
      | _ \<Rightarrow> Inl (InvalidInt name v lo))"

text \<open>\<open>expectedIds\<close> lists the ids of the batch in order, as the \<^verbatim>\<open>Set\<close> iterates.\<close>

definition validateBatchIds :: "CitationCorrection list \<Rightarrow> nat list \<Rightarrow> error + unit" where
  "validateBatchIds cs expectedIds =
     (case find (\<lambda>c. id_c c \<notin> of_nat ` set expectedIds) cs of
        Some c \<Rightarrow> Inl (UnexpectedId (id_c c))
      | None \<Rightarrow>
         (case find (\<lambda>i. \<not> list_ex (\<lambda>c. id_c c = of_nat i) cs) expectedIds of
            Some i \<Rightarrow> Inl (MissingBatchId i)
          | None \<Rightarrow> Inr ()))"

text \<open>
  The oracle is a function of the caller: it may keep state between calls and may fail.
  It is modelled as a transition on a state \<open>'s\<close>. The options of the client library
  are an opaque component \<open>llmOptions\<close>, and \<^verbatim>\<open>resolveLlm\<close>, which belongs to that
  library, is a parameter of the pipeline.
\<close>

type_synonym 's llm = "'s \<Rightarrow> Message list \<Rightarrow> (error + jsstring) \<times> 's"

record 'l BluebookifyOptions =
  llmOptions :: 'l
  contextSize :: "jsnumber option"
  rules :: "jsstring option"
  batchSize :: "jsnumber option"

text \<open>
  The loop \<^verbatim>\<open>for (let i = 0; i < contexts.length; i += batchSize)\<close> from index \<open>i\<close> on,
  with the oracle in state \<open>st\<close> and \<^verbatim>\<open>allCorrections\<close> = \<open>acc\<close>. The result pairs the
  outcome with the log of the oracle calls made, in order: each request with what the
  oracle answered. \<^verbatim>\<open>requireInt\<close> has made \<open>batchSize\<close> positive before the loop starts;
  the test \<open>0 < bs\<close> only makes the recursion well-founded.
\<close>

type_synonym call = "Message list \<times> (error + jsstring)"

function batch_loop ::
  "'s llm \<Rightarrow> jsstring option \<Rightarrow> CitationContext list \<Rightarrow> nat \<Rightarrow> nat \<Rightarrow> 's
     \<Rightarrow> CitationCorrection list \<Rightarrow> (error + CitationCorrection list) \<times> call list" where
  "batch_loop llmFn rls contexts bs i st acc =
     (if i < length contexts \<and> 0 < bs then
        (let batch = slice contexts i (i + bs);
             messages = buildMessages batch rls
         in case llmFn st messages of
              (Inl e, st') \<Rightarrow> (Inl e, [(messages, Inl e)])
            | (Inr response, st') \<Rightarrow>
                (case parseResponse response of
                   Inl e \<Rightarrow> (Inl e, [(messages, Inr response)])
                 | Inr cs \<Rightarrow>
                     (case validateBatchIds cs (map id' batch) of
                        Inl e \<Rightarrow> (Inl e, [(messages, Inr response)])
                      | Inr _ \<Rightarrow>
                          (case batch_loop llmFn rls contexts bs (i + bs) st' (acc @ cs) of
                             (res, calls) \<Rightarrow> (res, (messages, Inr response) # calls)))))
      else (Inr acc, []))"
  by pat_completeness auto
termination
  by (relation "measure (\<lambda>(llmFn, rls, contexts, bs, i, st, acc). length contexts - i)") auto

declare batch_loop.simps [simp del]

text \<open>
  The entry point. \<open>options\<close> is \<open>None\<close> when the caller passes none. The result is
  \<open>None\<close> when the extraction does not return; otherwise the outcome and the log of
  the oracle calls.
\<close>

definition bluebookify ::
  "('l BluebookifyOptions \<Rightarrow> error + 's llm) \<Rightarrow> 's \<Rightarrow> jsstring \<Rightarrow> 'l BluebookifyOptions option
     \<Rightarrow> ((error + BluebookifyResult) \<times> call list) option" where
  "bluebookify resolveLlm st text options =
     (case options of
        None \<Rightarrow> Some (Inl MissingOptions, [])
      | Some opts \<Rightarrow>
         (case requireInt (case batchSize opts of None \<Rightarrow> Finite 20 | Some b \<Rightarrow> b)
                 (js ''batchSize'') 1 of
            Inl e \<Rightarrow> Some (Inl e, [])
          | Inr bs \<Rightarrow>
             (case requireInt (case contextSize opts of None \<Rightarrow> Finite 100 | Some c \<Rightarrow> c)
                     (js ''contextSize'') 0 of
                Inl e \<Rightarrow> Some (Inl e, [])
              | Inr cs \<Rightarrow>
                 (case resolveLlm opts of
                    Inl e \<Rightarrow> Some (Inl e, [])
                  | Inr llmFn \<Rightarrow>
                     (case extractCitations text cs of
                        None \<Rightarrow> None
                      | Some contexts \<Rightarrow>
                         if contexts = [] then
                           Some (Inr \<lparr> text_r = text, corrections = [], unchanged = True \<rparr>, [])
                         else
                           (case batch_loop llmFn (rules opts) contexts bs 0 st [] of
                              (Inl e, calls) \<Rightarrow> Some (Inl e, calls)
                            | (Inr allCorrections, calls) \<Rightarrow>
                                (case applyCorrections text contexts allCorrections of
                                   Inl e \<Rightarrow> Some (Inl e, calls)
                                 | Inr res \<Rightarrow>
                                     Some (Inr \<lparr> text_r = text_a res,
                                                 corrections = appliedCorrections res,
                                                 unchanged = (appliedCorrections res = []) \<rparr>,
                                           calls))))))))"


section \<open>Notions of the specification\<close>

subsection \<open>Span invariants and the spliced text\<close>

text \<open>
  The invariants of a list of spans over a text: from left to right each span starts at
  or after the end of the one before, is not empty, ends within the text, and stores
  the text of its range; the ids count from 0.
\<close>

fun spans_from :: "jsstring \<Rightarrow> nat \<Rightarrow> CitationContext list \<Rightarrow> bool" where
  "spans_from text p [] = True"
| "spans_from text p (c # cs) =
     (p \<le> start c \<and> start c < end' c \<and> end' c \<le> length text \<and>
      original c = slice text (start c) (end' c) \<and> spans_from text (end' c) cs)"

definition span_invariants :: "jsstring \<Rightarrow> CitationContext list \<Rightarrow> bool" where
  "span_invariants text spans \<longleftrightarrow>
     spans_from text 0 spans \<and> map id' spans = [0..<length spans]"

text \<open>
  The correction of a span: the replacement indexed under its id, its own text when
  there is none.
\<close>

definition replacement_for :: "CitationCorrection list \<Rightarrow> CitationContext \<Rightarrow> jsstring" where
  "replacement_for corrs c =
     (case correctionMap corrs (of_nat (id' c)) of Some r \<Rightarrow> r | None \<Rightarrow> original c)"

text \<open>
  The text the specification asks for, from offset \<open>p\<close> on: what lies between the
  spans is copied, a span whose replacement differs from its text gives way to the
  replacement, and any other span is copied too.
\<close>

fun spliced ::
  "jsstring \<Rightarrow> nat \<Rightarrow> CitationContext list \<Rightarrow> (CitationContext \<Rightarrow> jsstring) \<Rightarrow> jsstring" where
  "spliced text p [] repl = drop p text"
| "spliced text p (c # cs) repl =
     slice text p (start c)
     @ (if repl c \<noteq> original c then repl c else slice text (start c) (end' c))
     @ spliced text (end' c) cs repl"

text \<open>
  Where the \<open>k\<close>-th span starts in the corrected text: its offset in the original,
  moved by the changes of length of the spans before it, and by those only.
\<close>

definition shifted_start ::
  "CitationContext list \<Rightarrow> (CitationContext \<Rightarrow> jsstring) \<Rightarrow> nat \<Rightarrow> nat" where
  "shifted_start spans repl k =
     start (spans ! k) + sum_list (map (\<lambda>c. length (repl c)) (take k spans))
       - sum_list (map (\<lambda>c. end' c - start c) (take k spans))"

text \<open>Auxiliary: a list of changes in text order, and the text it produces.\<close>

fun changes_from :: "jsstring \<Rightarrow> nat \<Rightarrow> (CitationContext \<times> jsstring) list \<Rightarrow> bool" where
  "changes_from text p [] = True"
| "changes_from text p (ch # rest) =
     (p \<le> start (fst ch) \<and> start (fst ch) < end' (fst ch) \<and> end' (fst ch) \<le> length text \<and>
      changes_from text (end' (fst ch)) rest)"

fun rebuild :: "jsstring \<Rightarrow> nat \<Rightarrow> (CitationContext \<times> jsstring) list \<Rightarrow> jsstring" where
  "rebuild text p [] = drop p text"
| "rebuild text p (ch # rest) =
     slice text p (start (fst ch)) @ snd ch @ rebuild text (end' (fst ch)) rest"

subsection \<open>Example data\<close>

definition ex_text :: jsstring where
  "ex_text = js ''AAA then BBB end''"

definition ex_spans :: "CitationContext list" where
  "ex_spans =
     [\<lparr> id' = 0, original = js ''AAA'', before = [], after = js ''then'', start = 0, end' = 3 \<rparr>,
      \<lparr> id' = 1, original = js ''BBB'', before = js ''then'', after = js ''end'',
        start = 9, end' = 12 \<rparr>]"

definition ex_corrections :: "CitationCorrection list" where
  "ex_corrections = [\<lparr> id_c = 0, citation = js ''AAAAAAA'' \<rparr>, \<lparr> id_c = 1, citation = js ''B'' \<rparr>]"

subsection \<open>The shape of a reply item\<close>

text \<open>
  The id and the replacement of an item that is a record with a number under
  \<^verbatim>\<open>id\<close> and a string under \<^verbatim>\<open>citation\<close>; \<open>None\<close> for any other item.
\<close>

fun shape_of :: "json \<Rightarrow> (rat \<times> jsstring) option" where
  "shape_of (JObj members) =
     (case (property members (js ''id''), property members (js ''citation'')) of
        (Some (JNum n), Some (JStr s)) \<Rightarrow> Some (n, s)
      | _ \<Rightarrow> None)"
| "shape_of _ = None"

definition ids_of :: "json list \<Rightarrow> rat set" where
  "ids_of items = set (map fst (List.map_filter shape_of items))"

text \<open>What is wrong with the item at index \<open>idx\<close>, given the ids seen before it.\<close>

definition item_error :: "nat \<Rightarrow> rat set \<Rightarrow> json \<Rightarrow> error option" where
  "item_error idx seen item =
     (case shape_of item of
        None \<Rightarrow> Some (InvalidCorrection idx item)
      | Some (n, s) \<Rightarrow>
          if trim s = [] then Some (EmptyCitation idx n)
          else if n \<in> seen then Some (DuplicateCorrectionId n idx)
          else None)"

definition correction_of :: "json \<Rightarrow> CitationCorrection" where
  "correction_of item =
     (case shape_of item of
        Some (n, s) \<Rightarrow> \<lparr> id_c = n, citation = s \<rparr>
      | None \<Rightarrow> \<lparr> id_c = 0, citation = [] \<rparr>)"

subsection \<open>Example replies\<close>

text \<open>The text of one record of a reply: \<^verbatim>\<open>{"id":i,"citation":"s"}\<close>.\<close>

definition record_text :: "jsstring \<Rightarrow> jsstring \<Rightarrow> jsstring" where
  "record_text i s = js ''{'' @ dq @ js ''id'' @ dq @ js '':'' @ i @ js '','' @ dq @ js ''citation'' @ dq
                     @ js '':'' @ dq @ s @ dq @ js ''}''"

definition ex_reply_fraction :: jsstring where
  "ex_reply_fraction = js ''['' @ record_text (js ''1.5'') (js ''x'') @ js '']''"

definition ex_reply_dup :: jsstring where
  "ex_reply_dup = js ''['' @ record_text (js ''0'') (js ''a'') @ js '','' @ record_text (js ''0'') (js ''b'') @ js '']''"

definition ex_items_dup :: "json list" where
  "ex_items_dup = [JObj [(js ''id'', JNum 0), (js ''citation'', JStr (js ''a''))],
                   JObj [(js ''id'', JNum 0), (js ''citation'', JStr (js ''b''))]]"

text \<open>
  Two replies whose ids are not doubles: \<^verbatim>\<open>9007199254740993\<close> lies between two doubles,
  and so does \<^verbatim>\<open>1.00000000000000001\<close>.
\<close>

definition ex_reply_rounded :: jsstring where
  "ex_reply_rounded = js ''['' @ record_text (js ''9007199254740992'') (js ''a'') @ js '',''
                      @ record_text (js ''9007199254740993'') (js ''b'') @ js '']''"

definition ex_reply_near :: jsstring where
  "ex_reply_near = js ''['' @ record_text (js ''1.00000000000000001'') (js ''a'') @ js '']''"

subsection \<open>Batches of a run\<close>

text \<open>
  The batch size and the context width of a run (0 when the option is refused), and the
  spans it extracts.
\<close>

definition batch_size_of :: "'l BluebookifyOptions \<Rightarrow> nat" where
  "batch_size_of opts =
     (case requireInt (case batchSize opts of None \<Rightarrow> Finite 20 | Some b \<Rightarrow> b) (js ''batchSize'') 1 of
        Inl e \<Rightarrow> 0 | Inr bs \<Rightarrow> bs)"

definition context_size_of :: "'l BluebookifyOptions \<Rightarrow> nat" where
  "context_size_of opts =
     (case requireInt (case contextSize opts of None \<Rightarrow> Finite 100 | Some c \<Rightarrow> c) (js ''contextSize'') 0 of
        Inl e \<Rightarrow> 0 | Inr cs \<Rightarrow> cs)"

definition spans_of :: "jsstring \<Rightarrow> 'l BluebookifyOptions \<Rightarrow> CitationContext list" where
  "spans_of text opts =
     (case extractCitations text (context_size_of opts) of None \<Rightarrow> [] | Some spans \<Rightarrow> spans)"

text \<open>A valid configuration: both numbers are accepted and the oracle resolves.\<close>

definition valid_options ::
  "('l BluebookifyOptions \<Rightarrow> error + 's llm) \<Rightarrow> 'l BluebookifyOptions \<Rightarrow> bool" where
  "valid_options resolveLlm opts \<longleftrightarrow>
     (\<exists>bs. requireInt (case batchSize opts of None \<Rightarrow> Finite 20 | Some b \<Rightarrow> b) (js ''batchSize'') 1
            = Inr bs) \<and>
     (\<exists>cs. requireInt (case contextSize opts of None \<Rightarrow> Finite 100 | Some c \<Rightarrow> c)
              (js ''contextSize'') 0 = Inr cs) \<and>
     (\<exists>llmFn. resolveLlm opts = Inr llmFn)"

text \<open>
  The \<open>k\<close>-th batch of a list of spans: the spans with indices from \<open>k * B\<close> up to
  \<open>min ((k + 1) * B) N\<close>.
\<close>

definition batch_of :: "CitationContext list \<Rightarrow> nat \<Rightarrow> nat \<Rightarrow> CitationContext list" where
  "batch_of spans B k = slice spans (k * B) (min ((k + 1) * B) (length spans))"

text \<open>
  The ids of a reply that are foreign to a batch, and the ids of the batch the reply
  leaves out, both in order.
\<close>

definition foreign_ids :: "CitationCorrection list \<Rightarrow> nat list \<Rightarrow> rat list" where
  "foreign_ids cs expected = filter (\<lambda>k. k \<notin> of_nat ` set expected) (map id_c cs)"

definition missing_ids :: "CitationCorrection list \<Rightarrow> nat list \<Rightarrow> nat list" where
  "missing_ids cs expected = filter (\<lambda>i. of_nat i \<notin> id_c ` set cs) expected"

text \<open>
  What one batch comes to: the oracle's failure, the parser's, the id check's, or the
  corrections of the batch.
\<close>

definition batch_result :: "error + jsstring \<Rightarrow> nat list \<Rightarrow> error + CitationCorrection list" where
  "batch_result reply expected =
     (case reply of
        Inl e \<Rightarrow> Inl e
      | Inr response \<Rightarrow>
          (case parseResponse response of
             Inl e \<Rightarrow> Inl e
           | Inr cs \<Rightarrow>
               (case validateBatchIds cs expected of
                  Inl e \<Rightarrow> Inl e
                | Inr _ \<Rightarrow> Inr cs)))"

text \<open>
  The ids of the \<open>k\<close>-th of the batches of size \<open>B\<close> of \<open>N\<close> spans, and the data message
  that holds exactly the spans of given indices: one line for each, labelled with the
  index, in the format of \<^verbatim>\<open>buildMessages\<close>.
\<close>

definition batch_ids :: "nat \<Rightarrow> nat \<Rightarrow> nat \<Rightarrow> nat list" where
  "batch_ids N B k = [k * B..<min ((k + 1) * B) N]"

definition labelled_line :: "nat \<Rightarrow> CitationContext \<Rightarrow> jsstring" where
  "labelled_line i c =
     [91] @ show_nat i @ [93, 32] @ [8220] @ before c @ [8221]
     @ [32, 91] @ original c @ [93, 32] @ [8220] @ after c @ [8221]"

definition data_message :: "CitationContext list \<Rightarrow> nat list \<Rightarrow> jsstring" where
  "data_message spans ids = join_lines (map (\<lambda>i. labelled_line i (spans ! i)) ids)"

subsection \<open>Context windows\<close>

text \<open>
  The context before a span that starts at \<open>s\<close>: the window of at most \<open>n\<close> code units
  that ends at \<open>s\<close>; when the window does not reach the start of the text and holds
  white space, what comes before its first white space and the run of white space
  from there on are dropped. The context after a span that ends at \<open>e\<close>: the window of
  at most \<open>n\<close> code units from \<open>e\<close>; when the window does not reach the end of the text
  and holds white space after its first code unit, it is cut before its last white
  space.
\<close>

definition before_context :: "jsstring \<Rightarrow> nat \<Rightarrow> nat \<Rightarrow> jsstring" where
  "before_context text n s =
     (let w = slice text (s - n) s
      in if n < s \<and> (\<exists>c\<in>set w. is_space c)
         then dropWhile is_space (dropWhile (\<lambda>c. \<not> is_space c) w)
         else w)"

definition after_context :: "jsstring \<Rightarrow> nat \<Rightarrow> nat \<Rightarrow> jsstring" where
  "after_context text n e =
     (let w = slice text e (e + n)
      in if e + n < length text \<and> (\<exists>c\<in>set (tl w). is_space c)
         then rev (tl (dropWhile (\<lambda>c. \<not> is_space c) (rev w)))
         else w)"

definition ex_context_text :: jsstring where
  "ex_context_text = js ''aa bb Id. cc dd''"

definition ex_boundary_text :: jsstring where
  "ex_boundary_text = js ''aa bb Id.''"


section \<open>Example runs\<close>

definition ex_opts :: "unit BluebookifyOptions" where
  "ex_opts = \<lparr> llmOptions = (), contextSize = None, rules = None, batchSize = Some (Finite 1) \<rparr>"

definition ex_llm_down :: "unit llm" where
  "ex_llm_down st messages = (Inl (LlmError (js ''down'')), st)"

definition ex_resolve_down :: "unit BluebookifyOptions \<Rightarrow> error + unit llm" where
  "ex_resolve_down opts = Inr ex_llm_down"

definition ex_reply_for :: "jsstring \<Rightarrow> jsstring" where
  "ex_reply_for i = js ''['' @ record_text i (js ''Id.'') @ js '']''"

definition ex_llm_count :: "nat llm" where
  "ex_llm_count st messages = (Inr (ex_reply_for (show_nat st)), Suc st)"

definition ex_resolve_count :: "unit BluebookifyOptions \<Rightarrow> error + nat llm" where
  "ex_resolve_count opts = Inr ex_llm_count"

definition ex_llm_zero :: "unit llm" where
  "ex_llm_zero st messages = (Inr (ex_reply_for (js ''0'')), st)"

definition ex_resolve_zero :: "unit BluebookifyOptions \<Rightarrow> error + unit llm" where
  "ex_resolve_zero opts = Inr ex_llm_zero"

definition ex_two_ids :: jsstring where
  "ex_two_ids = js ''Id. Id.''"

definition ex_two_spans :: "CitationContext list" where
  "ex_two_spans =
     [\<lparr> id' = 0, original = js ''Id.'', before = [], after = js '' Id.'', start = 0, end' = 3 \<rparr>,
      \<lparr> id' = 1, original = js ''Id.'', before = js ''Id. '', after = [], start = 4, end' = 7 \<rparr>]"


section \<open>What the patterns can match\<close>

text \<open>
  The invariants of the extractor depend on what the five patterns can match. The
  language of a pattern, with the assertions read as the empty word, contains every
  word the matcher can consume; \<open>nullable\<close>, \<open>firstc\<close>, \<open>lastc\<close>, \<open>chars\<close> and \<open>pairc\<close>
  bound from above whether the language has the empty word, and the first code units,
  the last code units, the code units and the pairs of adjacent code units of its words.
\<close>

inductive_set star_lang :: "jsstring set \<Rightarrow> jsstring set" for A :: "jsstring set" where
  star_empty: "[] \<in> star_lang A"
| star_more: "u \<in> A \<Longrightarrow> v \<in> star_lang A \<Longrightarrow> u @ v \<in> star_lang A"

primrec lang :: "re \<Rightarrow> jsstring set" where
  "lang Eps = {[]}"
| "lang (Cls p) = {[c] | c. p c}"
| "lang (Seq a b) = {u @ v | u v. u \<in> lang a \<and> v \<in> lang b}"
| "lang (Alt a b) = lang a \<union> lang b"
| "lang (Star a) = star_lang (lang a)"
| "lang WordB = {[]}"
| "lang Bol = {[]}"
| "lang Eol = {[]}"

primrec nullable :: "re \<Rightarrow> bool" where
  "nullable Eps = True"
| "nullable (Cls p) = False"
| "nullable (Seq a b) = (nullable a \<and> nullable b)"
| "nullable (Alt a b) = (nullable a \<or> nullable b)"
| "nullable (Star a) = True"
| "nullable WordB = True"
| "nullable Bol = True"
| "nullable Eol = True"

primrec firstc :: "re \<Rightarrow> jschar \<Rightarrow> bool" where
  "firstc Eps c = False"
| "firstc (Cls p) c = p c"
| "firstc (Seq a b) c = (firstc a c \<or> nullable a \<and> firstc b c)"
| "firstc (Alt a b) c = (firstc a c \<or> firstc b c)"
| "firstc (Star a) c = firstc a c"
| "firstc WordB c = False"
| "firstc Bol c = False"
| "firstc Eol c = False"

primrec lastc :: "re \<Rightarrow> jschar \<Rightarrow> bool" where
  "lastc Eps c = False"
| "lastc (Cls p) c = p c"
| "lastc (Seq a b) c = (lastc b c \<or> nullable b \<and> lastc a c)"
| "lastc (Alt a b) c = (lastc a c \<or> lastc b c)"
| "lastc (Star a) c = lastc a c"
| "lastc WordB c = False"
| "lastc Bol c = False"
| "lastc Eol c = False"

primrec pairc :: "re \<Rightarrow> jschar \<Rightarrow> jschar \<Rightarrow> bool" where
  "pairc Eps x y = False"
| "pairc (Cls p) x y = False"
| "pairc (Seq a b) x y = (pairc a x y \<or> pairc b x y \<or> lastc a x \<and> firstc b y)"
| "pairc (Alt a b) x y = (pairc a x y \<or> pairc b x y)"
| "pairc (Star a) x y = (pairc a x y \<or> lastc a x \<and> firstc a y)"
| "pairc WordB x y = False"
| "pairc Bol x y = False"
| "pairc Eol x y = False"

definition moved :: "pos \<Rightarrow> jsstring \<Rightarrow> pos \<Rightarrow> bool" where
  "moved z w z' \<longleftrightarrow> snd z = w @ snd z' \<and> fst z' = rev w @ fst z"

primrec chars :: "re \<Rightarrow> jschar \<Rightarrow> bool" where
  "chars Eps c = False"
| "chars (Cls p) c = p c"
| "chars (Seq a b) c = (chars a c \<or> chars b c)"
| "chars (Alt a b) c = (chars a c \<or> chars b c)"
| "chars (Star a) c = chars a c"
| "chars WordB c = False"
| "chars Bol c = False"
| "chars Eol c = False"

definition raw_match :: "re \<Rightarrow> jsstring \<Rightarrow> PatternMatch \<Rightarrow> bool" where
  "raw_match r text m \<longleftrightarrow>
     start_m m \<le> end_m m \<and> end_m m \<le> length text \<and>
     text_m m = slice text (start_m m) (end_m m) \<and> text_m m \<in> lang r"

definition good_end :: "jsstring \<Rightarrow> nat \<Rightarrow> bool" where
  "good_end text e \<longleftrightarrow>
     0 < e \<and> e \<le> length text \<and>
     (is_digit (text ! (e - 1)) \<or> text ! (e - 1) = 41 \<or>
      2 \<le> e \<and> text ! (e - 2) = 100 \<and> text ! (e - 1) = 46)"

definition cite_match :: "jsstring \<Rightarrow> PatternMatch \<Rightarrow> bool" where
  "cite_match text m \<longleftrightarrow>
     start_m m < end_m m \<and> end_m m \<le> length text \<and>
     text_m m = slice text (start_m m) (end_m m) \<and> good_end text (end_m m)"

definition signal_match :: "jsstring \<Rightarrow> PatternMatch \<Rightarrow> bool" where
  "signal_match text s \<longleftrightarrow>
     start_m s < end_m s \<and> end_m s \<le> length text \<and>
     (\<forall>i. start_m s \<le> i \<and> i < end_m s \<longrightarrow> \<not> is_digit (text ! i) \<and> text ! i \<noteq> 41) \<and>
     text ! start_m s \<noteq> 46 \<and>
     (\<forall>i. start_m s \<le> i \<and> Suc i < end_m s \<longrightarrow> \<not> (text ! i = 100 \<and> text ! Suc i = 46))"

definition merged_ok :: "jsstring \<Rightarrow> PatternMatch list \<Rightarrow> bool" where
  "merged_ok text ms \<longleftrightarrow>
     (\<forall>m\<in>set ms. cite_match text m) \<and> sorted_wrt (\<lambda>a b. end_m a < start_m b) ms"

fun matches_from :: "jsstring \<Rightarrow> nat \<Rightarrow> PatternMatch list \<Rightarrow> bool" where
  "matches_from text p [] = True"
| "matches_from text p (m # ms) =
     (p \<le> start_m m \<and> start_m m < end_m m \<and> end_m m \<le> length text \<and>
      text_m m = slice text (start_m m) (end_m m) \<and> matches_from text (end_m m) ms)"

text \<open>A text with two citations, the second one after a signal.\<close>

definition ex_signal_text :: jsstring where
  "ex_signal_text = js ''Id. See Id.''"

definition ex_signal_spans :: "CitationContext list" where
  "ex_signal_spans =
     [\<lparr> id' = 0, original = js ''Id.'', before = [], after = js '' See Id.'', start = 0, end' = 3 \<rparr>,
      \<lparr> id' = 1, original = js ''See Id.'', before = js ''Id. '', after = [], start = 4, end' = 11 \<rparr>]"


section \<open>Numbers of a reply\<close>

text \<open>
  Whole numbers up to \<open>2 ^ 53\<close> and fractions with few binary digits are doubles; a
  literal between two doubles takes the nearer one.
\<close>

lemma round_double_0: "round_double 0 = 0"
  by (simp add: round_double_def)

lemma round_double_1: "round_double 1 = 1"
  unfolding round_double_def Let_def
  apply (simp add: binade_def bit_length.simps)
  apply (simp add: round_half_even_def Let_def)
  done

lemma round_double_3_2: "round_double (3 / 2) = 3 / 2"
proof -
  have f: "\<lfloor>3 / 2 :: rat\<rfloor> = 1"
    by (simp add: floor_eq_iff)
  have b: "binade \<bar>3 / 2\<bar> = 0"
    by (simp add: binade_def f bit_length.simps)
  show ?thesis
    unfolding round_double_def Let_def b
    by (simp add: round_half_even_def Let_def)
qed

lemma round_double_tie: "round_double 9007199254740993 = 9007199254740992"
proof -
  have f: "\<lfloor>9007199254740993 / 2 :: rat\<rfloor> = 4503599627370496"
    by (simp add: floor_eq_iff)
  show ?thesis
    unfolding round_double_def Let_def
    apply (simp add: binade_def bit_length.simps)
    apply (simp add: round_half_even_def Let_def f)
    done
qed

lemma round_double_near_1: "round_double (100000000000000001 / 100000000000000000) = 1"
proof -
  let ?q = "100000000000000001 / 100000000000000000 :: rat"
  have f: "\<lfloor>?q\<rfloor> = 1"
    by (simp add: floor_eq_iff)
  have b: "binade \<bar>?q\<bar> = 0"
    by (simp add: binade_def f bit_length.simps)
  have u: "(if 52 \<le> max (0::int) (- 1022) then 2 ^ nat (max 0 (- 1022) - 52)
           else 1 / 2 ^ nat (52 - max 0 (- 1022))) = (1 / 4503599627370496 :: rat)"
    by simp
  have x: "\<bar>?q\<bar> / (1 / 4503599627370496) = 3435973836800000034359738368 / 762939453125"
    by simp
  have g: "\<lfloor>3435973836800000034359738368 / 762939453125 :: rat\<rfloor> = 4503599627370496"
    by (simp add: floor_eq_iff)
  have r: "round_half_even (3435973836800000034359738368 / 762939453125) = 4503599627370496"
    unfolding round_half_even_def Let_def g by simp
  have n: "?q \<noteq> 0" by simp
  have s: "sgn ?q = 1" by simp
  show ?thesis
    unfolding round_double_def Let_def b u x r s using n by simp
qed

lemma round_double_2_53: "round_double 9007199254740992 = 9007199254740992"
  unfolding round_double_def Let_def
  apply (simp add: binade_def bit_length.simps)
  apply (simp add: round_half_even_def Let_def)
  done


section \<open>Evaluation\<close>

text \<open>The definitions a concrete run unfolds, grouped for the simplifier.\<close>

lemmas re_defs = CASE_RE_def STATUTE_RE_def SHORT_FORM_RE_def ID_RE_def SIGNAL_RE_def
  NAME_def NAMES_def REPORTER_def lit_def seqs_def alts_def Plus_def Opt_def chr_def ws_def digit_def
  WS_RE_def TRAIL_RE_def FENCE_OPEN_RE_def FENCE_CLOSE_RE_def ci_def
lemmas chr_defs = is_space_def is_digit_def is_upper_def is_lower_def is_word_def json_ws_def
lemmas str_defs = js_def dq_def slice_def trimStart_def trimEnd_def trim_def
lemmas rx_defs = exec_all.simps match_at_def mk_match_def search_def remove_first_def matchAll_def
  word_before_def word_after_def
lemmas json_defs = JSON_parse_def parse_value.simps parse_elements.simps parse_members.simps
  parse_number_def parse_literal_def parse_escape_def skip_ws_def hexval_def unescape_def digits_val_def
  round_double_0 round_double_1 round_double_3_2
lemmas parse_defs = parseResponse_def clean_def find_array_def lastIndexOf_def property_def


section \<open>Splicing\<close>


lemma correctionMap_dom: "dom (correctionMap cs) = set (map id_c cs)"
proof -
  have "dom (foldl (\<lambda>m c. m(id_c c \<mapsto> citation c)) m0 cs) = dom m0 \<union> set (map id_c cs)" for m0
    by (induction cs arbitrary: m0) auto
  then show ?thesis by (simp add: correctionMap_def)
qed

lemma insort_key_last:
  "\<forall>y\<in>set ys. f y < f x \<Longrightarrow> insort_key f x ys = ys @ [x]"
  by (induction ys) auto

lemma sort_key_desc_rev:
  "sorted_wrt (\<lambda>a b. f b < f a) xs \<Longrightarrow> sort_key f xs = rev xs"
  by (induction xs) (auto simp: insort_key_last)

lemma changes_from_mono: "changes_from text p chs \<Longrightarrow> q \<le> p \<Longrightarrow> changes_from text q chs"
  by (cases chs) auto

lemma changes_from_effective:
  "spans_from text p spans \<Longrightarrow> changes_from text p (effective_changes spans m)"
proof (induction spans arbitrary: p)
  case Nil
  then show ?case by simp
next
  case (Cons c cs)
  have tl: "changes_from text (end' c) (effective_changes cs m)"
    using Cons by simp
  have "p \<le> end' c" using Cons.prems by simp
  then have "changes_from text p (effective_changes cs m)"
    using tl changes_from_mono by blast
  then show ?case using Cons.prems tl by (simp split: option.splits)
qed

lemma changes_from_starts:
  "changes_from text p chs \<Longrightarrow> \<forall>ch\<in>set chs. p \<le> start (fst ch)"
proof (induction chs arbitrary: p)
  case Nil then show ?case by simp
next
  case (Cons ch rest)
  then have "\<forall>x\<in>set rest. end' (fst ch) \<le> start (fst x)" by simp
  with Cons.prems show ?case by fastforce
qed

lemma changes_from_sorted:
  "changes_from text p chs \<Longrightarrow> sorted_wrt (\<lambda>a b. start (fst a) < start (fst b)) chs"
proof (induction chs arbitrary: p)
  case Nil then show ?case by simp
next
  case (Cons ch rest)
  from Cons.prems have r: "changes_from text (end' (fst ch)) rest" by simp
  have "\<forall>x\<in>set rest. end' (fst ch) \<le> start (fst x)"
    using changes_from_starts [OF r] .
  moreover have "start (fst ch) < end' (fst ch)" using Cons.prems by simp
  ultimately show ?case using Cons.IH [OF r] by fastforce
qed

lemma foldr_splice_rebuild:
  "changes_from text p chs \<Longrightarrow> p \<le> length text \<Longrightarrow>
   foldr (\<lambda>ch t. splice t ch) chs text = take p text @ rebuild text p chs"
proof (induction chs arbitrary: p)
  case Nil
  then show ?case by simp
next
  case (Cons ch rest)
  let ?s = "start (fst ch)" and ?e = "end' (fst ch)"
  from Cons.prems have b: "p \<le> ?s" "?s < ?e" "?e \<le> length text"
    and r: "changes_from text ?e rest" by simp_all
  have ih: "foldr (\<lambda>ch t. splice t ch) rest text = take ?e text @ rebuild text ?e rest"
    using Cons.IH [OF r] b by simp
  have "splice (take ?e text @ rebuild text ?e rest) ch
        = take ?s text @ snd ch @ rebuild text ?e rest"
    using b by (simp add: splice_def slice_def min_def)
  moreover have "take ?s text = take p text @ slice text p ?s"
    using b by (simp add: slice_def take_add [symmetric])
  ultimately show ?case using ih by simp
qed




lemma slice_split:
  assumes "a \<le> b" "b \<le> c"
  shows "slice s a c = slice s a b @ slice s b c"
proof -
  have "c - a = (b - a) + (c - b)" using assms by simp
  then have "take (c - a) (drop a s) = take (b - a) (drop a s) @ take (c - b) (drop (b - a) (drop a s))"
    by (simp only: take_add)
  moreover have "drop (b - a) (drop a s) = drop b s" using assms by simp
  ultimately show ?thesis by (simp add: slice_def)
qed

lemma drop_slice:
  assumes "a \<le> b"
  shows "drop a s = slice s a b @ drop b s"
proof -
  have "drop a s = take (b - a) (drop a s) @ drop (b - a) (drop a s)"
    by (simp only: append_take_drop_id)
  moreover have "drop (b - a) (drop a s) = drop b s" using assms by simp
  ultimately show ?thesis by (simp add: slice_def)
qed

lemma rebuild_skip:
  assumes "changes_from text e chs" "p \<le> e"
  shows "rebuild text p chs = slice text p e @ rebuild text e chs"
proof (cases chs)
  case Nil
  then show ?thesis using drop_slice [OF assms(2)] by simp
next
  case (Cons ch rest)
  then have "e \<le> start (fst ch)" using assms by simp
  then show ?thesis using Cons slice_split [OF assms(2)] by simp
qed

lemma effective_changes_same:
  "m (of_nat (id' c)) = Some r \<Longrightarrow> r = original c \<Longrightarrow>
   effective_changes (c # rest) m = effective_changes rest m"
  by simp

lemma effective_changes_diff:
  "m (of_nat (id' c)) = Some r \<Longrightarrow> r \<noteq> original c \<Longrightarrow>
   effective_changes (c # rest) m = (c, r) # effective_changes rest m"
  by simp

lemma rebuild_effective:
  "spans_from text p spans \<Longrightarrow> \<forall>c\<in>set spans. m (of_nat (id' c)) = Some (repl c) \<Longrightarrow>
   rebuild text p (effective_changes spans m) = spliced text p spans repl"
proof (induction spans arbitrary: p)
  case Nil then show ?case by simp
next
  case (Cons c cs)
  have b: "p \<le> start c" "start c \<le> end' c"
    and sp: "spans_from text (end' c) cs" using Cons.prems(1) by simp_all
  have m: "m (of_nat (id' c)) = Some (repl c)" using Cons.prems(2) by simp
  have ih: "rebuild text (end' c) (effective_changes cs m) = spliced text (end' c) cs repl"
    using Cons.IH [OF sp] Cons.prems(2) by simp
  show ?case
  proof (cases "repl c = original c")
    case False
    then have "effective_changes (c # cs) m = (c, repl c) # effective_changes cs m"
      using m by simp
    then show ?thesis using False ih by simp
  next
    case True
    have e: "effective_changes (c # cs) m = effective_changes cs m"
      using m True by (rule effective_changes_same)
    have "rebuild text p (effective_changes cs m)
          = slice text p (end' c) @ rebuild text (end' c) (effective_changes cs m)"
      using b(1) b(2) by (intro rebuild_skip [OF changes_from_effective [OF sp]]) simp
    moreover have "slice text p (end' c) = slice text p (start c) @ slice text (start c) (end' c)"
      using slice_split [OF b(1) b(2)] .
    ultimately have "rebuild text p (effective_changes (c # cs) m)
        = (slice text p (start c) @ slice text (start c) (end' c)) @ spliced text (end' c) cs repl"
      by (simp only: e ih)
    then show ?thesis using True by simp
  qed
qed


lemma spliced_piece:
  "spans_from text p spans \<Longrightarrow> c \<in> set spans \<Longrightarrow>
   (if repl c \<noteq> original c then repl c else slice text (start c) (end' c)) = repl c"
  by (induction spans arbitrary: p) auto

lemma spliced_nth:
  "spans_from text p spans \<Longrightarrow> k < length spans \<Longrightarrow>
   \<exists>A B. spliced text p spans repl = A @ repl (spans ! k) @ B \<and>
         length A + sum_list (map (\<lambda>c. end' c - start c) (take k spans)) + p
         = start (spans ! k) + sum_list (map (\<lambda>c. length (repl c)) (take k spans))"
proof (induction spans arbitrary: p k)
  case Nil then show ?case by simp
next
  case (Cons c cs)
  have b: "p \<le> start c" "start c < end' c" "end' c \<le> length text"
    and sp: "spans_from text (end' c) cs" using Cons.prems(1) by simp_all
  have piece: "(if repl c \<noteq> original c then repl c else slice text (start c) (end' c)) = repl c"
    by (rule spliced_piece [OF Cons.prems(1)]) simp
  have unf: "spliced text p (c # cs) repl = slice text p (start c) @ repl c @ spliced text (end' c) cs repl"
    using piece by simp
  have len0: "length (slice text p (start c)) = start c - p"
    using b by (simp add: slice_def)
  show ?case
  proof (cases "k = 0")
    case True
    have "spliced text p (c # cs) repl = slice text p (start c) @ repl ((c # cs) ! 0) @ spliced text (end' c) cs repl"
      using unf by simp
    moreover have "length (slice text p (start c)) + sum_list (map (\<lambda>c. end' c - start c) (take 0 (c # cs))) + p
         = start ((c # cs) ! 0) + sum_list (map (\<lambda>c. length (repl c)) (take 0 (c # cs)))"
      using len0 b by simp
    ultimately show ?thesis unfolding True by blast
  next
    case False
    then obtain k' where Suc: "k = Suc k'" by (cases k) auto
    then have "k' < length cs" using Cons.prems(2) by simp
    from Cons.IH [OF sp this] obtain A' B' where
      eq: "spliced text (end' c) cs repl = A' @ repl (cs ! k') @ B'" and
      len: "length A' + sum_list (map (\<lambda>c. end' c - start c) (take k' cs)) + end' c
            = start (cs ! k') + sum_list (map (\<lambda>c. length (repl c)) (take k' cs))"
      by blast
    let ?A = "slice text p (start c) @ repl c @ A'"
    have "spliced text p (c # cs) repl = ?A @ repl ((c # cs) ! Suc k') @ B'"
      using unf eq by simp
    moreover have "length ?A + sum_list (map (\<lambda>c. end' c - start c) (take (Suc k') (c # cs))) + p
        = start ((c # cs) ! Suc k') + sum_list (map (\<lambda>c. length (repl c)) (take (Suc k') (c # cs)))"
      using len len0 b by simp
    ultimately show ?thesis unfolding Suc by blast
  qed
qed

lemma spliced_at_shifted_start:
  assumes "spans_from text 0 spans" "k < length spans"
  shows "slice (spliced text 0 spans repl) (shifted_start spans repl k)
           (shifted_start spans repl k + length (repl (spans ! k))) = repl (spans ! k)"
proof -
  from spliced_nth [OF assms, of repl] obtain A B where
    eq: "spliced text 0 spans repl = A @ repl (spans ! k) @ B" and
    len: "length A + sum_list (map (\<lambda>c. end' c - start c) (take k spans)) + 0
          = start (spans ! k) + sum_list (map (\<lambda>c. length (repl c)) (take k spans))"
    by blast
  have "shifted_start spans repl k = length A"
    using len by (simp add: shifted_start_def)
  then show ?thesis by (simp add: eq slice_def)
qed



lemma find_None_iff': "find P xs = None \<longleftrightarrow> (\<forall>x\<in>set xs. \<not> P x)"
  by (induction xs) auto

lemma applyCorrections_eval:
  assumes inv: "spans_from text 0 spans"
      and ids: "set (map id_c corrs) = of_nat ` set (map id' spans)"
  shows "applyCorrections text spans corrs =
           Inr \<lparr> text_a = spliced text 0 spans (replacement_for corrs),
                 appliedCorrections = map audit (effective_changes spans (correctionMap corrs)) \<rparr>"
proof -
  let ?m = "correctionMap corrs"
  let ?eff = "effective_changes spans ?m"
  have dom: "dom ?m = of_nat ` set (map id' spans)"
    using correctionMap_dom ids by simp
  have f1: "find (\<lambda>i. ?m (of_nat i) = None) (map id' spans) = None"
  proof -
    have "\<forall>i\<in>set (map id' spans). ?m (of_nat i) \<noteq> None"
      using dom by (metis domIff imageI)
    then show ?thesis by (simp only: find_None_iff') 
  qed
  have f2: "find (\<lambda>k. k \<notin> of_nat ` set (map id' spans)) (map id_c corrs) = None"
  proof -
    have "\<forall>k\<in>set (map id_c corrs). \<not> (k \<notin> of_nat ` set (map id' spans))"
      using ids by simp
    then show ?thesis by (simp only: find_None_iff')
  qed
  have look: "\<forall>c\<in>set spans. ?m (of_nat (id' c)) = Some (replacement_for corrs c)"
  proof
    fix c assume "c \<in> set spans"
    then have "of_nat (id' c) \<in> dom ?m" using dom by simp
    then show "?m (of_nat (id' c)) = Some (replacement_for corrs c)"
      by (auto simp: replacement_for_def)
  qed
  have cf: "changes_from text 0 ?eff" by (rule changes_from_effective [OF inv])
  have "sorted_wrt (\<lambda>a b. start (fst a) < start (fst b)) ?eff"
    by (rule changes_from_sorted [OF cf])
  then have "sorted_wrt (\<lambda>a b. - int (start (fst b)) < - int (start (fst a))) ?eff"
    by (rule sorted_wrt_mono_rel [rotated]) simp
  then have srt: "sort_key (\<lambda>ch. - int (start (fst ch))) ?eff = rev ?eff"
    by (rule sort_key_desc_rev)
  have "foldl splice text (rev ?eff) = foldr (\<lambda>ch t. splice t ch) ?eff text"
    by (simp add: foldr_conv_foldl)
  also have "\<dots> = take 0 text @ rebuild text 0 ?eff"
    by (rule foldr_splice_rebuild [OF cf]) simp
  also have "\<dots> = spliced text 0 spans (replacement_for corrs)"
    using rebuild_effective [OF inv look] by simp
  finally have tx: "foldl splice text (rev ?eff) = spliced text 0 spans (replacement_for corrs)" .
  show ?thesis
    unfolding applyCorrections_def Let_def f1 f2 srt tx
    by (simp add: rev_map)
qed

lemma effective_changes_none:
  "\<forall>c\<in>set spans. m (of_nat (id' c)) = Some (original c) \<Longrightarrow> effective_changes spans m = []"
  by (induction spans) auto

lemma spliced_unchanged:
  "spans_from text p spans \<Longrightarrow> \<forall>c\<in>set spans. repl c = original c \<Longrightarrow>
   spliced text p spans repl = drop p text"
proof (induction spans arbitrary: p)
  case Nil then show ?case by simp
next
  case (Cons c cs)
  have b: "p \<le> start c" "start c \<le> end' c"
    and sp: "spans_from text (end' c) cs" using Cons.prems(1) by simp_all
  have ih: "spliced text (end' c) cs repl = drop (end' c) text"
    using Cons.IH [OF sp] Cons.prems(2) by simp
  have "repl c = original c" using Cons.prems(2) by simp
  then have "spliced text p (c # cs) repl
      = slice text p (start c) @ slice text (start c) (end' c) @ drop (end' c) text"
    using ih by simp
  also have "\<dots> = slice text p (end' c) @ drop (end' c) text"
    by (simp only: slice_split [OF b] append_assoc)
  also have "\<dots> = drop p text"
  proof -
    have "p \<le> end' c" using b by simp
    then show ?thesis by (rule drop_slice [symmetric])
  qed
  finally show ?case .
qed

lemma effective_changes_positions:
  "\<forall>c\<in>set spans. m (of_nat (id' c)) = Some (repl c) \<Longrightarrow>
   map fst (effective_changes spans m) = filter (\<lambda>c. repl c \<noteq> original c) spans"
  by (induction spans) auto

lemma position_audit: "position (audit ch) = start (fst ch)"
  by (simp add: audit_def Let_def)




subsection \<open>Claims about applyCorrections\<close>

text \<open>
  Claim C1. For every text, every list of spans with the span invariants and every list
  of corrections whose ids are exactly the ids of the spans, \<open>applyCorrections\<close> returns;
  its text is the original text with each span whose correction differs from its text
  replaced by the correction and everything outside those spans unchanged (\<open>spliced\<close>);
  the correction of the \<open>k\<close>-th span stands at the span's start moved by the length
  changes of the spans before it only, so a replacement of another length never disturbs
  what lies before it; and when every correction equals the text of its span, the text
  is the original and the list of changes is empty.
\<close>
theorem applyCorrections_splices_changed_spans:
  assumes "span_invariants text spans"
      and "set (map id_c corrs) = of_nat ` set (map id' spans)"
  shows "\<exists>res. applyCorrections text spans corrs = Inr res
           \<and> text_a res = spliced text 0 spans (replacement_for corrs)
           \<and> (\<forall>k<length spans.
                 slice (text_a res) (shifted_start spans (replacement_for corrs) k)
                   (shifted_start spans (replacement_for corrs) k
                      + length (replacement_for corrs (spans ! k)))
                 = replacement_for corrs (spans ! k))
           \<and> ((\<forall>c\<in>set spans. replacement_for corrs c = original c)
                 \<longrightarrow> text_a res = text \<and> appliedCorrections res = [])"
proof -
  let ?repl = "replacement_for corrs"
  let ?m = "correctionMap corrs"
  from assms(1) have inv: "spans_from text 0 spans" by (simp add: span_invariants_def)
  let ?res = "\<lparr> text_a = spliced text 0 spans ?repl,
                 appliedCorrections = map audit (effective_changes spans ?m) \<rparr>"
  have run: "applyCorrections text spans corrs = Inr ?res"
    by (rule applyCorrections_eval [OF inv assms(2)])
  have shift: "\<forall>k<length spans.
       slice (text_a ?res) (shifted_start spans ?repl k)
         (shifted_start spans ?repl k + length (?repl (spans ! k))) = ?repl (spans ! k)"
    using spliced_at_shifted_start [OF inv] by simp
  have noop: "(\<forall>c\<in>set spans. ?repl c = original c)
                 \<longrightarrow> text_a ?res = text \<and> appliedCorrections ?res = []"
  proof
    assume same: "\<forall>c\<in>set spans. ?repl c = original c"
    have "spliced text 0 spans ?repl = drop 0 text"
      by (rule spliced_unchanged [OF inv same])
    moreover have "effective_changes spans ?m = []"
    proof (rule effective_changes_none, rule ballI)
      fix c assume c: "c \<in> set spans"
      have "of_nat (id' c) \<in> dom ?m" using c assms(2) correctionMap_dom by auto
      then obtain r where r: "?m (of_nat (id' c)) = Some r" by blast
      then have "?repl c = r" by (simp add: replacement_for_def)
      then show "?m (of_nat (id' c)) = Some (original c)" using r same c by simp
    qed
    ultimately show "text_a ?res = text \<and> appliedCorrections ?res = []" by simp
  qed
  show ?thesis
    using run shift noop by (intro exI [of _ ?res]) simp
qed

theorem applyCorrections_splices_changed_spans_witness:
  "span_invariants ex_text ex_spans
   \<and> set (map id_c ex_corrections) = of_nat ` set (map id' ex_spans)
   \<and> (\<exists>res. applyCorrections ex_text ex_spans ex_corrections = Inr res
          \<and> text_a res = js ''AAAAAAA then B end'')"
proof -
  have h1: "span_invariants ex_text ex_spans"
    by (simp add: span_invariants_def ex_text_def ex_spans_def js_def slice_def upt_rec)
  have h2: "set (map id_c ex_corrections) = of_nat ` set (map id' ex_spans)"
    by (simp add: ex_corrections_def ex_spans_def)
  from applyCorrections_splices_changed_spans [OF h1 h2]
  obtain res where r: "applyCorrections ex_text ex_spans ex_corrections = Inr res"
    and t: "text_a res = spliced ex_text 0 ex_spans (replacement_for ex_corrections)"
    by blast
  have "spliced ex_text 0 ex_spans (replacement_for ex_corrections) = js ''AAAAAAA then B end''"
    by (simp add: ex_text_def ex_spans_def ex_corrections_def replacement_for_def
        correctionMap_def js_def slice_def)
  with r t h1 h2 show ?thesis by auto
qed

text \<open>
  Claim C7. For every valid input of \<open>applyCorrections\<close> (spans with the span invariants,
  corrections with exactly their ids) the list of changes returned is strictly ascending
  by position: the positions are the starts of the changed spans in text order, although
  the splices are made from the last span to the first.
\<close>
theorem applyCorrections_changes_ascending:
  assumes "span_invariants text spans"
      and "set (map id_c corrs) = of_nat ` set (map id' spans)"
  shows "\<exists>res. applyCorrections text spans corrs = Inr res
           \<and> sorted_wrt (<) (map position (appliedCorrections res))
           \<and> map position (appliedCorrections res)
               = map start (filter (\<lambda>c. replacement_for corrs c \<noteq> original c) spans)"
proof -
  let ?repl = "replacement_for corrs"
  let ?m = "correctionMap corrs"
  let ?eff = "effective_changes spans ?m"
  from assms(1) have inv: "spans_from text 0 spans" by (simp add: span_invariants_def)
  let ?res = "\<lparr> text_a = spliced text 0 spans ?repl, appliedCorrections = map audit ?eff \<rparr>"
  have run: "applyCorrections text spans corrs = Inr ?res"
    by (rule applyCorrections_eval [OF inv assms(2)])
  have pos: "map position (map audit ?eff) = map (\<lambda>ch. start (fst ch)) ?eff"
    by (simp add: position_audit)
  have "sorted_wrt (\<lambda>a b. start (fst a) < start (fst b)) ?eff"
    by (rule changes_from_sorted [OF changes_from_effective [OF inv]])
  then have s: "sorted_wrt (<) (map (\<lambda>ch. start (fst ch)) ?eff)"
    by (simp add: sorted_wrt_map)
  have look: "\<forall>c\<in>set spans. ?m (of_nat (id' c)) = Some (?repl c)"
  proof
    fix c assume "c \<in> set spans"
    then have "of_nat (id' c) \<in> dom ?m" using assms(2) correctionMap_dom by auto
    then show "?m (of_nat (id' c)) = Some (?repl c)"
      by (auto simp: replacement_for_def)
  qed
  have "map (\<lambda>ch. start (fst ch)) ?eff = map start (map fst ?eff)" by simp
  also have "\<dots> = map start (filter (\<lambda>c. ?repl c \<noteq> original c) spans)"
    by (simp only: effective_changes_positions [OF look])
  finally have f: "map (\<lambda>ch. start (fst ch)) ?eff
       = map start (filter (\<lambda>c. ?repl c \<noteq> original c) spans)" .
  show ?thesis
    using run s f pos by (intro exI [of _ ?res]) simp
qed

theorem applyCorrections_changes_ascending_witness:
  "span_invariants ex_text ex_spans
   \<and> set (map id_c ex_corrections) = of_nat ` set (map id' ex_spans)
   \<and> (\<exists>res. applyCorrections ex_text ex_spans ex_corrections = Inr res
          \<and> map position (appliedCorrections res) = [0, 9])"
proof -
  have h1: "span_invariants ex_text ex_spans"
    by (simp add: span_invariants_def ex_text_def ex_spans_def js_def slice_def upt_rec)
  have h2: "set (map id_c ex_corrections) = of_nat ` set (map id' ex_spans)"
    by (simp add: ex_corrections_def ex_spans_def)
  from applyCorrections_changes_ascending [OF h1 h2]
  obtain res where r: "applyCorrections ex_text ex_spans ex_corrections = Inr res"
    and t: "map position (appliedCorrections res)
               = map start (filter (\<lambda>c. replacement_for ex_corrections c \<noteq> original c) ex_spans)"
    by blast
  have "map start (filter (\<lambda>c. replacement_for ex_corrections c \<noteq> original c) ex_spans) = [0, 9]"
    by (simp add: ex_spans_def ex_corrections_def replacement_for_def correctionMap_def js_def)
  with r t h1 h2 show ?thesis by auto
qed


section \<open>The reply parser\<close>

lemma validate_items_bad_shape:
  "shape_of item = None \<Longrightarrow> validate_items idx seen (item # rest) = Inl (InvalidCorrection idx item)"
  by (cases item) (auto split: option.splits json.splits)

lemma validate_items_shaped:
  "shape_of item = Some (n, s) \<Longrightarrow>
   validate_items idx seen (item # rest) =
     (if trim s = [] then Inl (EmptyCitation idx n)
      else if n \<in> seen then Inl (DuplicateCorrectionId n idx)
      else (case validate_items (idx + 1) (insert n seen) rest of
              Inl e \<Rightarrow> Inl e
            | Inr cs \<Rightarrow> Inr (\<lparr> id_c = n, citation = s \<rparr> # cs)))"
  by (cases item) (auto split: option.splits json.splits)

lemma ids_of_Cons_shaped: "shape_of item = Some (n, s) \<Longrightarrow> ids_of (item # rest) = insert n (ids_of rest)"
  by (simp add: ids_of_def map_filter_simps)

lemma ids_of_Nil: "ids_of [] = {}"
  by (simp add: ids_of_def map_filter_simps)

lemma validate_items_ok:
  "(\<forall>i<length items. item_error (idx + i) (seen \<union> ids_of (take i items)) (items ! i) = None)
   \<Longrightarrow> validate_items idx seen items = Inr (map correction_of items)"
proof (induction items arbitrary: idx seen)
  case Nil
  then show ?case by simp
next
  case (Cons item rest)
  have "item_error idx seen item = None"
    using Cons.prems [rule_format, of 0] by (simp add: ids_of_Nil)
  then obtain n s where sh: "shape_of item = Some (n, s)" and ne: "trim s \<noteq> []" and ns: "n \<notin> seen"
    by (auto simp: item_error_def split: option.splits if_splits)
  have "\<forall>i<length rest. item_error (Suc idx + i) (insert n seen \<union> ids_of (take i rest)) (rest ! i) = None"
  proof (intro allI impI)
    fix i assume "i < length rest"
    then show "item_error (Suc idx + i) (insert n seen \<union> ids_of (take i rest)) (rest ! i) = None"
      using Cons.prems [rule_format, of "Suc i"] by (simp add: ids_of_Cons_shaped [OF sh])
  qed
  then have "validate_items (Suc idx) (insert n seen) rest = Inr (map correction_of rest)"
    by (rule Cons.IH)
  moreover have "correction_of item = \<lparr> id_c = n, citation = s \<rparr>"
    using sh by (simp add: correction_of_def)
  ultimately show ?case
    using validate_items_shaped [OF sh, of idx seen rest] ne ns by simp
qed

lemma validate_items_err:
  "i < length items \<Longrightarrow>
   (\<forall>j<i. item_error (idx + j) (seen \<union> ids_of (take j items)) (items ! j) = None) \<Longrightarrow>
   item_error (idx + i) (seen \<union> ids_of (take i items)) (items ! i) = Some e \<Longrightarrow>
   validate_items idx seen items = Inl e"
proof (induction items arbitrary: idx seen i)
  case Nil
  then show ?case by simp
next
  case (Cons item rest)
  show ?case
  proof (cases i)
    case z: 0
    then have ie: "item_error idx seen item = Some e"
      using Cons.prems(3) by (simp add: ids_of_Nil)
    show ?thesis
    proof (cases "shape_of item")
      case None
      then show ?thesis using ie validate_items_bad_shape [OF None, of idx seen rest]
        by (simp add: item_error_def)
    next
      case (Some p)
      obtain n s where p: "p = (n, s)" by (cases p)
      show ?thesis
        using ie validate_items_shaped [OF Some [unfolded p], of idx seen rest]
        by (auto simp: item_error_def Some p split: if_splits)
    qed
  next
    case (Suc i')
    have "item_error idx seen item = None"
      using Cons.prems(2) [rule_format, of 0] Suc by (simp add: ids_of_Nil)
    then obtain n s where sh: "shape_of item = Some (n, s)" and ne: "trim s \<noteq> []" and ns: "n \<notin> seen"
      by (auto simp: item_error_def split: option.splits if_splits)
    have a: "i' < length rest" using Cons.prems(1) Suc by simp
    have b: "\<forall>j<i'. item_error (Suc idx + j) (insert n seen \<union> ids_of (take j rest)) (rest ! j) = None"
    proof (intro allI impI)
      fix j assume "j < i'"
      then show "item_error (Suc idx + j) (insert n seen \<union> ids_of (take j rest)) (rest ! j) = None"
        using Cons.prems(2) [rule_format, of "Suc j"] Suc by (simp add: ids_of_Cons_shaped [OF sh])
    qed
    have c: "item_error (Suc idx + i') (insert n seen \<union> ids_of (take i' rest)) (rest ! i') = Some e"
      using Cons.prems(3) Suc by (simp add: ids_of_Cons_shaped [OF sh])
    have "validate_items (Suc idx) (insert n seen) rest = Inl e"
      by (rule Cons.IH [OF a b c])
    then show ?thesis
      using validate_items_shaped [OF sh, of idx seen rest] ne ns by simp
  qed
qed

text \<open>Ids are compared after rounding.\<close>

lemma parse_rounded:
  "parseResponse ex_reply_rounded = Inl (DuplicateCorrectionId 9007199254740992 1)"
proof -
  have c: "clean ex_reply_rounded = ex_reply_rounded"
    by (simp add: ex_reply_rounded_def record_text_def clean_def str_defs rx_defs re_defs chr_defs)
  have j: "JSON_parse ex_reply_rounded
           = Some (JArr [JObj [(js ''id'', JNum 9007199254740992), (js ''citation'', JStr (js ''a''))],
                         JObj [(js ''id'', JNum 9007199254740992), (js ''citation'', JStr (js ''b''))]])"
    by (simp add: ex_reply_rounded_def record_text_def str_defs json_defs chr_defs
          round_double_2_53 round_double_tie)
  show ?thesis
    unfolding parseResponse_def Let_def c find_array_def j
    by (simp add: property_def str_defs chr_defs)
qed

lemma parse_near:
  "parseResponse ex_reply_near = Inr [\<lparr> id_c = 1, citation = js ''a'' \<rparr>]"
proof -
  have c: "clean ex_reply_near = ex_reply_near"
    by (simp add: ex_reply_near_def record_text_def clean_def str_defs rx_defs re_defs chr_defs)
  have j: "JSON_parse ex_reply_near
           = Some (JArr [JObj [(js ''id'', JNum 1), (js ''citation'', JStr (js ''a''))]])"
    by (simp add: ex_reply_near_def record_text_def str_defs json_defs chr_defs
          round_double_near_1)
  show ?thesis
    unfolding parseResponse_def Let_def c find_array_def j
    by (simp add: property_def str_defs chr_defs)
qed


subsection \<open>Claims about the validation of reply items\<close>


lemma clean_fraction: "clean ex_reply_fraction = ex_reply_fraction"
  by (simp add: ex_reply_fraction_def record_text_def clean_def str_defs rx_defs re_defs chr_defs)

lemma json_fraction: "JSON_parse ex_reply_fraction = Some (JArr [JObj [(js ''id'', JNum (3/2)), (js ''citation'', JStr (js ''x''))]])"
  by (simp add: ex_reply_fraction_def record_text_def str_defs json_defs chr_defs)

lemma parse_fraction: "parseResponse ex_reply_fraction = Inr [\<lparr> id_c = 3/2, citation = js ''x'' \<rparr>]"
  unfolding parseResponse_def Let_def clean_fraction find_array_def json_fraction
  by (simp add: property_def str_defs chr_defs)


lemma find_array_dup: "find_array (clean ex_reply_dup) = Some ex_items_dup"
proof -
  have c: "clean ex_reply_dup = ex_reply_dup"
    by (simp add: ex_reply_dup_def record_text_def clean_def str_defs rx_defs re_defs chr_defs)
  have "JSON_parse ex_reply_dup = Some (JArr ex_items_dup)"
    by (simp add: ex_reply_dup_def ex_items_dup_def record_text_def str_defs json_defs chr_defs)
  then show ?thesis by (simp add: c find_array_def)
qed

text \<open>
  Claim C6, amended. For every parsed reply array, \<open>parseResponse\<close> returns the error of
  the first item that is wrong: \<open>InvalidCorrection\<close> with its index when the item is not a
  record with a number under \<^verbatim>\<open>id\<close> and a string under \<^verbatim>\<open>citation\<close>,
  \<open>EmptyCitation\<close> when the replacement is empty or white space, \<open>DuplicateCorrectionId\<close>
  when an earlier item has the same id (\<open>item_error\<close>). When no item is wrong it returns
  one correction per item, in array order. The id may be any number: a fraction is not
  refused.
\<close>

theorem parseResponse_validates_items:
  assumes "find_array (clean response) = Some items"
  shows "((\<forall>i<length items. item_error i (ids_of (take i items)) (items ! i) = None)
            \<longrightarrow> parseResponse response = Inr (map correction_of items))
       \<and> (\<forall>i<length items. \<forall>e.
              (\<forall>j<i. item_error j (ids_of (take j items)) (items ! j) = None)
              \<and> item_error i (ids_of (take i items)) (items ! i) = Some e
            \<longrightarrow> parseResponse response = Inl e)"
proof -
  have p: "parseResponse response = validate_items 0 {} items"
    using assms by (simp add: parseResponse_def)
  have ok: "(\<forall>i<length items. item_error i (ids_of (take i items)) (items ! i) = None)
            \<longrightarrow> validate_items 0 {} items = Inr (map correction_of items)"
    using validate_items_ok [of items 0 "{}"] by simp
  have err: "\<forall>i<length items. \<forall>e.
              (\<forall>j<i. item_error j (ids_of (take j items)) (items ! j) = None)
              \<and> item_error i (ids_of (take i items)) (items ! i) = Some e
            \<longrightarrow> validate_items 0 {} items = Inl e"
  proof (intro allI impI)
    fix i e
    assume i: "i < length items"
      and h: "(\<forall>j<i. item_error j (ids_of (take j items)) (items ! j) = None)
              \<and> item_error i (ids_of (take i items)) (items ! i) = Some e"
    show "validate_items 0 {} items = Inl e"
      using validate_items_err [of i items 0 "{}" e] i h by simp
  qed
  show ?thesis unfolding p using ok err by blast
qed

theorem parseResponse_validates_items_witness:
  "find_array (clean ex_reply_dup) = Some ex_items_dup
   \<and> item_error 0 (ids_of (take 0 ex_items_dup)) (ex_items_dup ! 0) = None
   \<and> item_error 1 (ids_of (take 1 ex_items_dup)) (ex_items_dup ! 1) = Some (DuplicateCorrectionId 0 1)
   \<and> parseResponse ex_reply_dup = Inl (DuplicateCorrectionId 0 1)"
proof -
  have e0: "item_error 0 (ids_of (take 0 ex_items_dup)) (ex_items_dup ! 0) = None"
    by (simp add: ex_items_dup_def item_error_def ids_of_def map_filter_simps property_def str_defs chr_defs)
  have e1: "item_error 1 (ids_of (take 1 ex_items_dup)) (ex_items_dup ! 1) = Some (DuplicateCorrectionId 0 1)"
    by (simp add: ex_items_dup_def item_error_def ids_of_def map_filter_simps property_def str_defs chr_defs)
  have l: "(1::nat) < length ex_items_dup" by (simp add: ex_items_dup_def)
  have "parseResponse ex_reply_dup = Inl (DuplicateCorrectionId 0 1)"
    using parseResponse_validates_items [OF find_array_dup] l e0 e1 by auto
  then show ?thesis using find_array_dup e0 e1 by simp
qed

text \<open>
  Claim C6 as stated does not hold: the reply \<^verbatim>\<open>[{"id":1.5,"citation":"x"}]\<close> has an id
  that is not an integer, and \<open>parseResponse\<close> returns its correction.
\<close>

theorem parseResponse_accepts_fractional_id:
  "parseResponse ex_reply_fraction = Inr [\<lparr> id_c = 3 / 2, citation = js ''x'' \<rparr>]
   \<and> of_int \<lfloor>3 / 2 :: rat\<rfloor> \<noteq> (3 / 2 :: rat)"
proof -
  have "\<lfloor>3 / 2 :: rat\<rfloor> = 1" by (simp add: floor_eq_iff)
  then have "of_int \<lfloor>3 / 2 :: rat\<rfloor> \<noteq> (3 / 2 :: rat)" by simp
  then show ?thesis using parse_fraction by simp
qed


section \<open>The pipeline\<close>

lemma batch_loop_stop:
  "\<not> (i < length contexts \<and> 0 < bs) \<Longrightarrow> batch_loop llmFn rls contexts bs i st acc = (Inr acc, [])"
  by (subst batch_loop.simps) (rule if_not_P)

lemma batch_loop_unfold:
  assumes "i < length contexts" "0 < bs"
      and "llmFn st (buildMessages (slice contexts i (i + bs)) rls) = (reply, st')"
  shows "batch_loop llmFn rls contexts bs i st acc =
           (case batch_result reply (map id' (slice contexts i (i + bs))) of
              Inl e \<Rightarrow> (Inl e, [(buildMessages (slice contexts i (i + bs)) rls, reply)])
            | Inr cs \<Rightarrow>
                (fst (batch_loop llmFn rls contexts bs (i + bs) st' (acc @ cs)),
                 (buildMessages (slice contexts i (i + bs)) rls, reply)
                 # snd (batch_loop llmFn rls contexts bs (i + bs) st' (acc @ cs))))"
proof -
  let ?batch = "slice contexts i (i + bs)"
  let ?req = "buildMessages ?batch rls"
  have c: "i < length contexts \<and> 0 < bs" using assms by simp
  have u: "batch_loop llmFn rls contexts bs i st acc =
        (case llmFn st ?req of
              (Inl e, st') \<Rightarrow> (Inl e, [(?req, Inl e)])
            | (Inr response, st') \<Rightarrow>
                (case parseResponse response of
                   Inl e \<Rightarrow> (Inl e, [(?req, Inr response)])
                 | Inr cs \<Rightarrow>
                     (case validateBatchIds cs (map id' ?batch) of
                        Inl e \<Rightarrow> (Inl e, [(?req, Inr response)])
                      | Inr _ \<Rightarrow>
                          (case batch_loop llmFn rls contexts bs (i + bs) st' (acc @ cs) of
                             (res, calls) \<Rightarrow> (res, (?req, Inr response) # calls)))))"
    by (subst batch_loop.simps) (simp only: c simp_thms if_True Let_def)
  show ?thesis
  proof (cases reply)
    case (Inl e)
    then show ?thesis unfolding u assms(3) by (simp add: batch_result_def)
  next
    case (Inr response)
    show ?thesis
    proof (cases "parseResponse response")
      case (Inl e)
      then show ?thesis unfolding u assms(3) Inr by (simp add: batch_result_def)
    next
      case pr: (Inr cs)
      show ?thesis
      proof (cases "validateBatchIds cs (map id' ?batch)")
        case (Inl e)
        then show ?thesis unfolding u assms(3) Inr by (simp add: batch_result_def pr)
      next
        case v: (Inr x)
        then show ?thesis unfolding u assms(3) Inr
          by (simp add: batch_result_def pr split: prod.splits)
      qed
    qed
  qed
qed


lemma batch_loop_cases:
  assumes "0 < bs"
  obtains
    (stop) "\<not> i < length contexts" "batch_loop llmFn rls contexts bs i st acc = (Inr acc, [])"
  | (fail) reply e where "i < length contexts"
      "batch_result reply (map id' (slice contexts i (i + bs))) = Inl e"
      "batch_loop llmFn rls contexts bs i st acc
         = (Inl e, [(buildMessages (slice contexts i (i + bs)) rls, reply)])"
  | (continue) reply st' cs where "i < length contexts"
      "batch_result reply (map id' (slice contexts i (i + bs))) = Inr cs"
      "batch_loop llmFn rls contexts bs i st acc
         = (fst (batch_loop llmFn rls contexts bs (i + bs) st' (acc @ cs)),
            (buildMessages (slice contexts i (i + bs)) rls, reply)
            # snd (batch_loop llmFn rls contexts bs (i + bs) st' (acc @ cs)))"
proof (cases "i < length contexts")
  case False
  then have "\<not> (i < length contexts \<and> 0 < bs)" by simp
  then have "batch_loop llmFn rls contexts bs i st acc = (Inr acc, [])"
    by (rule batch_loop_stop)
  then show ?thesis using stop False by simp
next
  case True
  obtain reply st' where r: "llmFn st (buildMessages (slice contexts i (i + bs)) rls) = (reply, st')"
    by (cases "llmFn st (buildMessages (slice contexts i (i + bs)) rls)")
  note u = batch_loop_unfold [where llmFn = llmFn and st = st and acc = acc, OF True assms r]
  show ?thesis
  proof (cases "batch_result reply (map id' (slice contexts i (i + bs)))")
    case (Inl e)
    then show ?thesis using fail [OF True Inl] u by simp
  next
    case (Inr cs)
    then show ?thesis using continue [OF True Inr] u by simp
  qed
qed

lemma batch_loop_requests:
  assumes "0 < bs"
  shows "k < length (snd (batch_loop llmFn rls contexts bs i st acc)) \<Longrightarrow>
         fst (snd (batch_loop llmFn rls contexts bs i st acc) ! k)
           = buildMessages (slice contexts (i + k * bs) (i + k * bs + bs)) rls"
proof (induction k arbitrary: i st acc)
  case 0
  show ?case
    using assms
  proof (cases rule: batch_loop_cases [where i = i and contexts = contexts and llmFn = llmFn and rls = rls and st = st and acc = acc])
    case stop
    then show ?thesis using "0.prems" by simp
  next
    case (fail reply e)
    then show ?thesis by simp
  next
    case (continue reply st' cs)
    then show ?thesis by simp
  qed
next
  case (Suc k)
  show ?case
    using assms
  proof (cases rule: batch_loop_cases [where i = i and contexts = contexts and llmFn = llmFn and rls = rls and st = st and acc = acc])
    case stop
    then show ?thesis using Suc.prems by simp
  next
    case (fail reply e)
    then show ?thesis using Suc.prems by simp
  next
    case (continue reply st' cs)
    have "k < length (snd (batch_loop llmFn rls contexts bs (i + bs) st' (acc @ cs)))"
      using Suc.prems continue(3) by simp
    from Suc.IH [OF this]
    have "fst (snd (batch_loop llmFn rls contexts bs (i + bs) st' (acc @ cs)) ! k)
           = buildMessages (slice contexts (i + bs + k * bs) (i + bs + k * bs + bs)) rls" .
    then show ?thesis using continue(3) by (simp add: ac_simps)
  qed
qed

lemma batch_loop_failure:
  assumes "0 < bs"
  shows "k < length (snd (batch_loop llmFn rls contexts bs i st acc)) \<Longrightarrow>
         batch_result (snd (snd (batch_loop llmFn rls contexts bs i st acc) ! k))
           (map id' (slice contexts (i + k * bs) (i + k * bs + bs))) = Inl e \<Longrightarrow>
         fst (batch_loop llmFn rls contexts bs i st acc) = Inl e"
proof (induction k arbitrary: i st acc)
  case 0
  show ?case
    using assms
  proof (cases rule: batch_loop_cases [where i = i and contexts = contexts and llmFn = llmFn and rls = rls and st = st and acc = acc])
    case stop
    then show ?thesis using "0.prems" by simp
  next
    case (fail reply e')
    then show ?thesis using "0.prems" by simp
  next
    case (continue reply st' cs)
    then show ?thesis using "0.prems" by simp
  qed
next
  case (Suc k)
  show ?case
    using assms
  proof (cases rule: batch_loop_cases [where i = i and contexts = contexts and llmFn = llmFn and rls = rls and st = st and acc = acc])
    case stop
    then show ?thesis using Suc.prems by simp
  next
    case (fail reply e')
    then show ?thesis using Suc.prems by simp
  next
    case (continue reply st' cs)
    have a: "k < length (snd (batch_loop llmFn rls contexts bs (i + bs) st' (acc @ cs)))"
      using Suc.prems continue(3) by simp
    have b: "batch_result (snd (snd (batch_loop llmFn rls contexts bs (i + bs) st' (acc @ cs)) ! k))
           (map id' (slice contexts (i + bs + k * bs) (i + bs + k * bs + bs))) = Inl e"
      using Suc.prems(2) continue(3) by (simp add: ac_simps)
    from Suc.IH [OF a b] show ?thesis using continue(3) by simp
  qed
qed

lemma div_add_self_Suc: "0 < (b::nat) \<Longrightarrow> (x + b) div b = Suc (x div b)"
  by simp

lemma ceil_div_step:
  assumes "0 < (b::nat)" "i < n"
  shows "(n - i + b - 1) div b = Suc ((n - (i + b) + b - 1) div b)"
proof (cases "i + b \<le> n")
  case True
  have "n - i + b - 1 = (n - (i + b) + b - 1) + b" using True assms by linarith
  then show ?thesis using div_add_self_Suc [OF assms(1)] by presburger
next
  case False
  have z: "n - (i + b) + b - 1 < b" using False assms by linarith
  have y: "n - i - 1 < b" "n - i + b - 1 = (n - i - 1) + b" using False assms by linarith+
  have "(n - i + b - 1) div b = Suc ((n - i - 1) div b)"
    using div_add_self_Suc [OF assms(1)] y(2) by presburger
  moreover have "(n - i - 1) div b = 0" using y(1) by (rule div_less)
  moreover have "(n - (i + b) + b - 1) div b = 0" using z by (rule div_less)
  ultimately show ?thesis by presburger
qed

lemma batch_loop_count:
  assumes "0 < bs"
  shows "length (snd (batch_loop llmFn rls contexts bs i st acc)) \<le> (length contexts - i + bs - 1) div bs
       \<and> ((\<exists>r. fst (batch_loop llmFn rls contexts bs i st acc) = Inr r) \<longrightarrow>
            length (snd (batch_loop llmFn rls contexts bs i st acc)) = (length contexts - i + bs - 1) div bs)"
proof (induction "length contexts - i" arbitrary: i st acc rule: less_induct)
  case less
  show ?case
    using assms
  proof (cases rule: batch_loop_cases [where i = i and contexts = contexts and llmFn = llmFn and rls = rls and st = st and acc = acc])
    case stop
    then have "length contexts - i = 0" by simp
    then have "(length contexts - i + bs - 1) div bs = 0" using assms by simp
    then show ?thesis using stop by simp
  next
    case (fail reply e)
    then show ?thesis using ceil_div_step [OF assms fail(1)] by simp
  next
    case (continue reply st' cs)
    have "length contexts - (i + bs) < length contexts - i" using continue(1) assms by simp
    from less [OF this, of st' "acc @ cs"] show ?thesis
      using continue(3) ceil_div_step [OF assms continue(1)] by simp
  qed
qed

lemma requireInt_pos: "requireInt v name 1 = Inr bs \<Longrightarrow> 0 < bs"
proof -
  assume a: "requireInt v name 1 = Inr bs"
  then obtain q where q: "v = Finite q" "\<not> q < 1" "of_int \<lfloor>q\<rfloor> = q" "bs = nat \<lfloor>q\<rfloor>"
    by (cases v) (auto simp: requireInt_def split: if_splits)
  have "1 \<le> \<lfloor>q\<rfloor>" using q(2) by (simp add: le_floor_iff)
  then show ?thesis using q(4) by simp
qed

lemma bluebookify_invalid:
  "\<not> valid_options resolveLlm opts \<Longrightarrow>
   \<exists>e. bluebookify resolveLlm st text (Some opts) = Some (Inl e, [])"
  by (auto simp: valid_options_def bluebookify_def split: sum.splits option.splits)

lemma bluebookify_valid:
  assumes "valid_options resolveLlm opts"
  obtains llmFn where "resolveLlm opts = Inr llmFn" "0 < batch_size_of opts"
    "bluebookify resolveLlm st text (Some opts) =
       (case extractCitations text (context_size_of opts) of
          None \<Rightarrow> None
        | Some contexts \<Rightarrow>
            if contexts = [] then
              Some (Inr \<lparr> text_r = text, corrections = [], unchanged = True \<rparr>, [])
            else
              (case batch_loop llmFn (rules opts) contexts (batch_size_of opts) 0 st [] of
                 (Inl e, calls) \<Rightarrow> Some (Inl e, calls)
               | (Inr allCorrections, calls) \<Rightarrow>
                   (case applyCorrections text contexts allCorrections of
                      Inl e \<Rightarrow> Some (Inl e, calls)
                    | Inr res \<Rightarrow>
                        Some (Inr \<lparr> text_r = text_a res,
                                    corrections = appliedCorrections res,
                                    unchanged = (appliedCorrections res = []) \<rparr>,
                              calls))))"
proof -
  from assms obtain bs cs llmFn where
    b: "requireInt (case batchSize opts of None \<Rightarrow> Finite 20 | Some b \<Rightarrow> b) (js ''batchSize'') 1 = Inr bs"
    and c: "requireInt (case contextSize opts of None \<Rightarrow> Finite 100 | Some c \<Rightarrow> c) (js ''contextSize'') 0 = Inr cs"
    and l: "resolveLlm opts = Inr llmFn"
    unfolding valid_options_def by blast
  have bs: "batch_size_of opts = bs" using b by (simp add: batch_size_of_def)
  have cs: "context_size_of opts = cs" using c by (simp add: context_size_of_def)
  have pos: "0 < batch_size_of opts" using requireInt_pos [OF b] bs by simp
  show ?thesis
    by (rule that [OF l pos]) (simp only: bluebookify_def b c l bs cs option.case sum.case)
qed

lemma slice_min_length: "slice xs a (min b (length xs)) = slice xs a b"
proof (cases "b \<le> length xs")
  case True
  then show ?thesis by (simp add: min_def)
next
  case False
  then have "length (drop a xs) \<le> b - a" by simp
  then have "take (b - a) (drop a xs) = drop a xs" by (rule take_all)
  moreover have "take (length xs - a) (drop a xs) = drop a xs" by simp
  ultimately show ?thesis using False by (simp add: slice_def min_def)
qed

lemma batch_of_slice: "batch_of spans B k = slice spans (0 + k * B) (0 + k * B + B)"
  using slice_min_length [of spans "k * B" "k * B + B"] by (simp add: batch_of_def ac_simps)

lemma slice_upt: "slice [0..<n] a b = [a..<min b n]"
proof -
  have "drop a [0..<n] = [a..<n]" by simp
  moreover have "take (b - a) [a..<n] = [a..<min b n]"
  proof (cases "b \<le> n")
    case True
    show ?thesis
    proof (cases "a \<le> b")
      case le: True
      then have "a + (b - a) \<le> n" using True by simp
      then have "take (b - a) [a..<n] = [a..<a + (b - a)]" by (rule take_upt)
      then show ?thesis using le True by (simp add: min_def)
    next
      case False
      then show ?thesis using True by (simp add: min_def)
    qed
  next
    case False
    then have "length [a..<n] \<le> b - a" by simp
    then have "take (b - a) [a..<n] = [a..<n]" by (rule take_all)
    then show ?thesis using False by (simp add: min_def)
  qed
  ultimately show ?thesis by (simp only: slice_def)
qed

lemma id_mk_context: "id' (mk_context text c i m) = i"
  by (simp add: mk_context_def Let_def)

lemma extractCitations_ids:
  "extractCitations text c = Some spans \<Longrightarrow> map id' spans = [0..<length spans]"
proof -
  assume a: "extractCitations text c = Some spans"
  then obtain fused where s: "spans = map (\<lambda>(i, m). mk_context text c i m) (enumerate 0 fused)"
    by (auto simp: extractCitations_def Let_def split: option.splits)
  have m: "map id' (map (\<lambda>(i, m). mk_context text c i m) xs) = map fst xs" for xs
    by (induction xs) (auto simp: id_mk_context)
  have "map id' spans = map fst (enumerate 0 fused)" unfolding s by (rule m)
  also have "\<dots> = [0..<length fused]" by simp
  finally show ?thesis using s by simp
qed

lemma spans_of_ids: "map id' (spans_of text opts) = [0..<length (spans_of text opts)]"
  by (cases "extractCitations text (context_size_of opts)")
     (simp_all add: spans_of_def extractCitations_ids)

lemma batch_of_ids:
  "map id' (batch_of (spans_of text opts) B k)
   = [k * B..<min ((k + 1) * B) (length (spans_of text opts))]"
proof -
  have "map id' (batch_of (spans_of text opts) B k)
        = slice (map id' (spans_of text opts)) (k * B) (min ((k + 1) * B) (length (spans_of text opts)))"
    by (simp add: batch_of_def slice_def take_map drop_map)
  also have "\<dots> = slice [0..<length (spans_of text opts)] (k * B) (min ((k + 1) * B) (length (spans_of text opts)))"
    using spans_of_ids [of "text" opts] by simp
  also have "\<dots> = [k * B..<min ((k + 1) * B) (length (spans_of text opts))]"
    by (simp add: slice_upt)
  finally show ?thesis .
qed

text \<open>What a run's log is.\<close>

lemma bluebookify_log:
  assumes run: "bluebookify resolveLlm st text (Some opts) = Some (outcome, calls)"
  obtains (quiet) "calls = []" "(\<exists>r. outcome = Inr r) \<longrightarrow> spans_of text opts = []"
  | (looped) llmFn where "0 < batch_size_of opts"
      "calls = snd (batch_loop llmFn (rules opts) (spans_of text opts) (batch_size_of opts) 0 st [])"
      "\<And>e. fst (batch_loop llmFn (rules opts) (spans_of text opts) (batch_size_of opts) 0 st []) = Inl e
            \<Longrightarrow> outcome = Inl e"
      "(\<exists>r. outcome = Inr r) \<Longrightarrow>
         \<exists>r. fst (batch_loop llmFn (rules opts) (spans_of text opts) (batch_size_of opts) 0 st []) = Inr r"
proof (cases "valid_options resolveLlm opts")
  case False
  from bluebookify_invalid [OF False, of st "text"] obtain e where
    "bluebookify resolveLlm st text (Some opts) = Some (Inl e, [])" by blast
  then have "calls = []" "outcome = Inl e" using run by simp_all
  then show ?thesis using quiet by simp
next
  case True
  show ?thesis
  proof (rule bluebookify_valid [OF True, of st "text"])
    fix llmFn
    assume pos: "0 < batch_size_of opts"
      and u: "bluebookify resolveLlm st text (Some opts) =
       (case extractCitations text (context_size_of opts) of
          None \<Rightarrow> None
        | Some contexts \<Rightarrow>
            if contexts = [] then
              Some (Inr \<lparr> text_r = text, corrections = [], unchanged = True \<rparr>, [])
            else
              (case batch_loop llmFn (rules opts) contexts (batch_size_of opts) 0 st [] of
                 (Inl e, calls) \<Rightarrow> Some (Inl e, calls)
               | (Inr allCorrections, calls) \<Rightarrow>
                   (case applyCorrections text contexts allCorrections of
                      Inl e \<Rightarrow> Some (Inl e, calls)
                    | Inr res \<Rightarrow>
                        Some (Inr \<lparr> text_r = text_a res,
                                    corrections = appliedCorrections res,
                                    unchanged = (appliedCorrections res = []) \<rparr>,
                              calls))))"
    from run u obtain contexts where ex: "extractCitations text (context_size_of opts) = Some contexts"
      by (cases "extractCitations text (context_size_of opts)") auto
    have sp: "spans_of text opts = contexts" using ex by (simp add: spans_of_def)
    show ?thesis
    proof (cases "contexts = []")
      case e: True
      have "bluebookify resolveLlm st text (Some opts)
            = Some (Inr \<lparr> text_r = text, corrections = [], unchanged = True \<rparr>, [])"
        unfolding u ex using e by simp
      then have "calls = []" using run by simp
      then show ?thesis using quiet sp e by simp
    next
      case ne: False
      obtain res calls' where bl:
        "batch_loop llmFn (rules opts) contexts (batch_size_of opts) 0 st [] = (res, calls')"
        by (cases "batch_loop llmFn (rules opts) contexts (batch_size_of opts) 0 st []")
      have v: "Some (outcome, calls) =
          (case res of
             Inl e \<Rightarrow> Some (Inl e, calls')
           | Inr allCorrections \<Rightarrow>
               (case applyCorrections text contexts allCorrections of
                  Inl e \<Rightarrow> Some (Inl e, calls')
                | Inr res \<Rightarrow>
                    Some (Inr \<lparr> text_r = text_a res,
                                corrections = appliedCorrections res,
                                unchanged = (appliedCorrections res = []) \<rparr>,
                          calls')))"
        unfolding run [symmetric] u ex using ne by (simp add: bl)
      have c: "calls = calls'"
        using v by (cases res) (auto split: sum.splits)
      have f: "outcome = Inl e" if "res = Inl e" for e
        using v that by simp
      have g: "\<exists>r. res = Inr r" if "\<exists>r. outcome = Inr r"
        using v that by (cases res) auto
      have b1: "calls = snd (batch_loop llmFn (rules opts) (spans_of text opts) (batch_size_of opts) 0 st [])"
        unfolding sp bl using c by simp
      have b2: "outcome = Inl e"
        if "fst (batch_loop llmFn (rules opts) (spans_of text opts) (batch_size_of opts) 0 st []) = Inl e" for e
        using that f unfolding sp bl by simp
      have b3: "\<exists>r. fst (batch_loop llmFn (rules opts) (spans_of text opts) (batch_size_of opts) 0 st []) = Inr r"
        if "\<exists>r. outcome = Inr r"
        using g [OF that] unfolding sp bl by simp
      show ?thesis
        by (rule looped [OF pos b1 b2 b3])
    qed
  qed
qed

lemma find_filter: "find P xs = (case filter P xs of [] \<Rightarrow> None | x # _ \<Rightarrow> Some x)"
  by (induction xs) auto

lemma validateBatchIds_eq:
  "validateBatchIds cs expected =
     (if foreign_ids cs expected \<noteq> [] then Inl (UnexpectedId (hd (foreign_ids cs expected)))
      else if missing_ids cs expected \<noteq> [] then Inl (MissingBatchId (hd (missing_ids cs expected)))
      else Inr ())"
proof -
  let ?P = "\<lambda>c. id_c c \<notin> of_nat ` set expected"
  let ?Q = "\<lambda>i. \<not> list_ex (\<lambda>c. id_c c = of_nat i) cs"
  have f: "foreign_ids cs expected = map id_c (filter ?P cs)"
    by (simp add: foreign_ids_def filter_map comp_def)
  have "?Q = (\<lambda>i. of_nat i \<notin> id_c ` set cs)"
    by (rule ext) (force simp: list_ex_iff)
  then have m: "missing_ids cs expected = filter ?Q expected"
    by (simp add: missing_ids_def)
  show ?thesis
  proof (cases "filter ?P cs")
    case (Cons c rest)
    then have "find ?P cs = Some c" by (simp add: find_filter)
    then show ?thesis using Cons f by (simp add: validateBatchIds_def)
  next
    case Nil
    then have n: "find ?P cs = None" by (simp add: find_filter)
    show ?thesis
    proof (cases "filter ?Q expected")
      case Nil2: Nil
      then have "find ?Q expected = None" by (simp add: find_filter)
      then show ?thesis using n Nil Nil2 f m by (simp add: validateBatchIds_def)
    next
      case (Cons i rest)
      then have "find ?Q expected = Some i" by (simp add: find_filter)
      then show ?thesis using n Nil Cons f m by (simp add: validateBatchIds_def)
    qed
  qed
qed


lemmas ex_defs = ex_opts_def ex_llm_down_def ex_resolve_down_def ex_reply_for_def ex_llm_count_def
  ex_resolve_count_def ex_llm_zero_def ex_resolve_zero_def ex_two_ids_def ex_two_spans_def record_text_def

lemmas extract_defs = extractCitations_def sort_matches_def merge_step_def fuse_step_def
  mk_context_def enumerate_eq_zip Let_def

lemma extract_two_ids: "extractCitations ex_two_ids 100 = Some ex_two_spans"
  by (simp add: ex_defs extract_defs rx_defs re_defs str_defs chr_defs)

lemma extract_plain: "extractCitations (js ''plain text'') 100 = Some []"
  by (simp add: extract_defs rx_defs re_defs str_defs chr_defs)

lemma ex_opts_sizes: "batch_size_of ex_opts = 1" "context_size_of ex_opts = 100"
  by (simp_all add: batch_size_of_def context_size_of_def requireInt_def ex_opts_def)

lemma ex_rules: "rules ex_opts = None"
  by (simp add: ex_opts_def)

lemma ex_opts_valid: "valid_options ex_resolve_down ex_opts" "valid_options ex_resolve_count ex_opts"
  "valid_options ex_resolve_zero ex_opts"
  by (simp_all add: valid_options_def requireInt_def ex_defs)

lemma parse_reply_0: "parseResponse (ex_reply_for (js ''0'')) = Inr [\<lparr> id_c = 0, citation = js ''Id.'' \<rparr>]"
proof -
  have c: "clean (ex_reply_for (js ''0'')) = ex_reply_for (js ''0'')"
    by (simp add: ex_defs clean_def str_defs rx_defs re_defs chr_defs)
  have j: "JSON_parse (ex_reply_for (js ''0''))
           = Some (JArr [JObj [(js ''id'', JNum 0), (js ''citation'', JStr (js ''Id.''))]])"
    by (simp add: ex_defs str_defs json_defs chr_defs)
  show ?thesis
    unfolding parseResponse_def Let_def c find_array_def j
    by (simp add: property_def str_defs chr_defs)
qed

lemma parse_reply_1: "parseResponse (ex_reply_for (js ''1'')) = Inr [\<lparr> id_c = 1, citation = js ''Id.'' \<rparr>]"
proof -
  have c: "clean (ex_reply_for (js ''1'')) = ex_reply_for (js ''1'')"
    by (simp add: ex_defs clean_def str_defs rx_defs re_defs chr_defs)
  have j: "JSON_parse (ex_reply_for (js ''1''))
           = Some (JArr [JObj [(js ''id'', JNum 1), (js ''citation'', JStr (js ''Id.''))]])"
    by (simp add: ex_defs str_defs json_defs chr_defs)
  show ?thesis
    unfolding parseResponse_def Let_def c find_array_def j
    by (simp add: property_def str_defs chr_defs)
qed

lemma spans_of_two: "spans_of ex_two_ids ex_opts = ex_two_spans"
  by (simp add: spans_of_def ex_opts_sizes extract_two_ids)


lemma loop_down:
  "batch_loop ex_llm_down None ex_two_spans (Suc 0) 0 () []
   = (Inl (LlmError (js ''down'')),
      [(buildMessages (slice ex_two_spans 0 (Suc 0)) None, Inl (LlmError (js ''down'')))])"
  by (subst batch_loop.simps) (simp add: ex_llm_down_def ex_two_spans_def Let_def)

lemma bluebookify_eval:
  assumes v: "valid_options resolveLlm opts"
      and l: "resolveLlm opts = Inr llmFn"
      and e: "extractCitations text (context_size_of opts) = Some contexts"
      and n: "contexts \<noteq> []"
      and b: "batch_loop llmFn (rules opts) contexts (batch_size_of opts) 0 st [] = (res, calls)"
  shows "bluebookify resolveLlm st text (Some opts) =
           (case res of
              Inl e \<Rightarrow> Some (Inl e, calls)
            | Inr allCorrections \<Rightarrow>
                (case applyCorrections text contexts allCorrections of
                   Inl e \<Rightarrow> Some (Inl e, calls)
                 | Inr r \<Rightarrow>
                     Some (Inr \<lparr> text_r = text_a r,
                                 corrections = appliedCorrections r,
                                 unchanged = (appliedCorrections r = []) \<rparr>,
                           calls)))"
proof (rule bluebookify_valid [OF v, of st "text"])
  fix llmFn'
  assume l': "resolveLlm opts = Inr llmFn'"
    and u: "bluebookify resolveLlm st text (Some opts) =
       (case extractCitations text (context_size_of opts) of
          None \<Rightarrow> None
        | Some contexts \<Rightarrow>
            if contexts = [] then
              Some (Inr \<lparr> text_r = text, corrections = [], unchanged = True \<rparr>, [])
            else
              (case batch_loop llmFn' (rules opts) contexts (batch_size_of opts) 0 st [] of
                 (Inl e, calls) \<Rightarrow> Some (Inl e, calls)
               | (Inr allCorrections, calls) \<Rightarrow>
                   (case applyCorrections text contexts allCorrections of
                      Inl e \<Rightarrow> Some (Inl e, calls)
                    | Inr res \<Rightarrow>
                        Some (Inr \<lparr> text_r = text_a res,
                                    corrections = appliedCorrections res,
                                    unchanged = (appliedCorrections res = []) \<rparr>,
                              calls))))"
  have f: "llmFn' = llmFn" using l l' by simp
  show ?thesis
    unfolding u e f using n by (cases res) (simp_all add: b)
qed

lemma run_down:
  "bluebookify ex_resolve_down () ex_two_ids (Some ex_opts)
   = Some (Inl (LlmError (js ''down'')),
           [(buildMessages (slice ex_two_spans 0 (Suc 0)) None, Inl (LlmError (js ''down'')))])"
proof -
  have l: "ex_resolve_down ex_opts = Inr ex_llm_down" by (simp add: ex_resolve_down_def)
  have e: "extractCitations ex_two_ids (context_size_of ex_opts) = Some ex_two_spans"
    by (simp add: ex_opts_sizes extract_two_ids)
  have n: "ex_two_spans \<noteq> []" by (simp add: ex_two_spans_def)
  have b: "batch_loop ex_llm_down (rules ex_opts) ex_two_spans (batch_size_of ex_opts) 0 () []
     = (Inl (LlmError (js ''down'')),
           [(buildMessages (slice ex_two_spans 0 (Suc 0)) None, Inl (LlmError (js ''down'')))])"
    unfolding ex_opts_sizes ex_rules by (simp add: loop_down)
  show ?thesis
    using bluebookify_eval [OF ex_opts_valid(1) l e n b] by simp
qed


lemma loop_zero:
  "batch_loop ex_llm_zero None ex_two_spans (Suc 0) 0 () []
   = (Inl (UnexpectedId 0),
      [(buildMessages (slice ex_two_spans 0 (Suc 0)) None, Inr (ex_reply_for (js ''0''))),
       (buildMessages (slice ex_two_spans (Suc 0) (Suc (Suc 0))) None, Inr (ex_reply_for (js ''0'')))])"
  by (simp add: batch_loop.simps ex_llm_zero_def parse_reply_0 validateBatchIds_def
        ex_two_spans_def slice_def Let_def)

lemma show_nat_0: "show_nat 0 = js ''0''" and show_nat_1: "show_nat (Suc 0) = js ''1''"
  by (simp_all add: js_def)

lemma loop_count:
  "batch_loop ex_llm_count None ex_two_spans (Suc 0) 0 0 []
   = (Inr [\<lparr> id_c = 0, citation = js ''Id.'' \<rparr>, \<lparr> id_c = 1, citation = js ''Id.'' \<rparr>],
      [(buildMessages (slice ex_two_spans 0 (Suc 0)) None, Inr (ex_reply_for (js ''0''))),
       (buildMessages (slice ex_two_spans (Suc 0) (Suc (Suc 0))) None, Inr (ex_reply_for (js ''1'')))])"
  by (simp add: batch_loop.simps ex_llm_count_def show_nat_0 show_nat_1 parse_reply_0 parse_reply_1
        validateBatchIds_def ex_two_spans_def slice_def Let_def del: show_nat.simps)


lemma run_zero:
  "bluebookify ex_resolve_zero () ex_two_ids (Some ex_opts)
   = Some (Inl (UnexpectedId 0),
      [(buildMessages (slice ex_two_spans 0 (Suc 0)) None, Inr (ex_reply_for (js ''0''))),
       (buildMessages (slice ex_two_spans (Suc 0) (Suc (Suc 0))) None, Inr (ex_reply_for (js ''0'')))])"
proof -
  have l: "ex_resolve_zero ex_opts = Inr ex_llm_zero" by (simp add: ex_resolve_zero_def)
  have e: "extractCitations ex_two_ids (context_size_of ex_opts) = Some ex_two_spans"
    by (simp add: ex_opts_sizes extract_two_ids)
  have n: "ex_two_spans \<noteq> []" by (simp add: ex_two_spans_def)
  have b: "batch_loop ex_llm_zero (rules ex_opts) ex_two_spans (batch_size_of ex_opts) 0 () []
     = (Inl (UnexpectedId 0),
      [(buildMessages (slice ex_two_spans 0 (Suc 0)) None, Inr (ex_reply_for (js ''0''))),
       (buildMessages (slice ex_two_spans (Suc 0) (Suc (Suc 0))) None, Inr (ex_reply_for (js ''0'')))])"
    unfolding ex_opts_sizes ex_rules by (simp add: loop_zero)
  show ?thesis
    using bluebookify_eval [OF ex_opts_valid(3) l e n b] by simp
qed

lemma apply_same:
  "applyCorrections ex_two_ids ex_two_spans
     [\<lparr> id_c = 0, citation = js ''Id.'' \<rparr>, \<lparr> id_c = 1, citation = js ''Id.'' \<rparr>]
   = Inr \<lparr> text_a = ex_two_ids, appliedCorrections = [] \<rparr>"
  by (simp add: applyCorrections_def correctionMap_def ex_two_spans_def Let_def)

lemma run_count:
  "bluebookify ex_resolve_count 0 ex_two_ids (Some ex_opts)
   = Some (Inr \<lparr> text_r = ex_two_ids, corrections = [], unchanged = True \<rparr>,
      [(buildMessages (slice ex_two_spans 0 (Suc 0)) None, Inr (ex_reply_for (js ''0''))),
       (buildMessages (slice ex_two_spans (Suc 0) (Suc (Suc 0))) None, Inr (ex_reply_for (js ''1'')))])"
proof -
  have l: "ex_resolve_count ex_opts = Inr ex_llm_count" by (simp add: ex_resolve_count_def)
  have e: "extractCitations ex_two_ids (context_size_of ex_opts) = Some ex_two_spans"
    by (simp add: ex_opts_sizes extract_two_ids)
  have n: "ex_two_spans \<noteq> []" by (simp add: ex_two_spans_def)
  have b: "batch_loop ex_llm_count (rules ex_opts) ex_two_spans (batch_size_of ex_opts) 0 0 []
     = (Inr [\<lparr> id_c = 0, citation = js ''Id.'' \<rparr>, \<lparr> id_c = 1, citation = js ''Id.'' \<rparr>],
      [(buildMessages (slice ex_two_spans 0 (Suc 0)) None, Inr (ex_reply_for (js ''0''))),
       (buildMessages (slice ex_two_spans (Suc 0) (Suc (Suc 0))) None, Inr (ex_reply_for (js ''1'')))])"
    unfolding ex_opts_sizes ex_rules by (simp add: loop_count)
  show ?thesis
    using bluebookify_eval [OF ex_opts_valid(2) l e n b] by (simp add: apply_same)
qed


section \<open>The extractor\<close>

subsection \<open>The matcher consumes words of the language\<close>

lemma moved_Nil: "moved z [] z"
  by (simp add: moved_def)

lemma moved_trans: "moved z u z' \<Longrightarrow> moved z' v z'' \<Longrightarrow> moved z (u @ v) z''"
  by (simp add: moved_def)

lemma star_ends_sound:
  assumes f: "\<And>z z'. z' \<in> set (f z) \<Longrightarrow> \<exists>w\<in>A. moved z w z'"
  shows "z' \<in> set (star_ends f n z) \<Longrightarrow> \<exists>w\<in>star_lang A. moved z w z'"
proof (induction n arbitrary: z)
  case 0
  then have "z' = z" by simp
  then show ?case using moved_Nil star_empty by blast
next
  case (Suc n)
  from Suc.prems consider "z' = z"
    | y where "y \<in> set (f z)" "z' \<in> set (star_ends f n y)"
    by (auto split: if_splits)
  then show ?case
  proof cases
    case 1
    then show ?thesis using moved_Nil star_empty by blast
  next
    case 2
    from f [OF 2(1)] obtain u where u: "u \<in> A" "moved z u y" by blast
    from Suc.IH [OF 2(2)] obtain v where v: "v \<in> star_lang A" "moved y v z'" by blast
    have "u @ v \<in> star_lang A" using u(1) v(1) by (rule star_more)
    moreover have "moved z (u @ v) z'" using u(2) v(2) by (rule moved_trans)
    ultimately show ?thesis by blast
  qed
qed

lemma ends_sound: "z' \<in> set (ends r z) \<Longrightarrow> \<exists>w\<in>lang r. moved z w z'"
proof (induction r arbitrary: z z')
  case Eps
  then show ?case by (simp add: moved_def)
next
  case (Cls p)
  then show ?case by (cases z) (auto simp: moved_def split: list.splits if_splits)
next
  case (Seq a b)
  from Seq.prems obtain y where y: "y \<in> set (ends a z)" "z' \<in> set (ends b y)" by auto
  from Seq.IH(1) [OF y(1)] obtain u where u: "u \<in> lang a" "moved z u y" by blast
  from Seq.IH(2) [OF y(2)] obtain v where v: "v \<in> lang b" "moved y v z'" by blast
  have "u @ v \<in> lang (Seq a b)" using u(1) v(1) by auto
  moreover have "moved z (u @ v) z'" using u(2) v(2) by (rule moved_trans)
  ultimately show ?case by blast
next
  case (Alt a b)
  from Alt.prems have "z' \<in> set (ends a z) \<or> z' \<in> set (ends b z)" by simp
  then show ?case
  proof
    assume "z' \<in> set (ends a z)"
    from Alt.IH(1) [OF this] show ?thesis by auto
  next
    assume "z' \<in> set (ends b z)"
    from Alt.IH(2) [OF this] show ?thesis by auto
  qed
next
  case (Star a)
  from Star.prems have "z' \<in> set (star_ends (ends a) (length (snd z)) z)" by simp
  then have "\<exists>w\<in>star_lang (lang a). moved z w z'"
    by (rule star_ends_sound [rotated]) (rule Star.IH)
  then show ?case by simp
next
  case WordB
  then show ?case by (simp add: moved_def split: if_splits)
next
  case Bol
  then show ?case by (simp add: moved_def split: if_splits)
next
  case Eol
  then show ?case by (simp add: moved_def split: if_splits)
qed

lemma match_at_sound: "match_at r z = Some z' \<Longrightarrow> \<exists>w\<in>lang r. moved z w z'"
  by (rule ends_sound) (auto simp: match_at_def split: list.splits)

lemma find_from_sound:
  "find_from r pre suf = Some (zs, ze) \<Longrightarrow>
   \<exists>u. moved (pre, suf) u zs \<and> (\<exists>w\<in>lang r. moved zs w ze)"
proof (induction suf arbitrary: pre)
  case Nil
  then have "zs = (pre, [])" "match_at r (pre, []) = Some ze"
    by (auto split: option.splits)
  then show ?case using match_at_sound moved_Nil by blast
next
  case (Cons c cs)
  show ?case
  proof (cases "match_at r (pre, c # cs)")
    case (Some z')
    then have "zs = (pre, c # cs)" "match_at r (pre, c # cs) = Some ze"
      using Cons.prems by auto
    then show ?thesis using match_at_sound moved_Nil by blast
  next
    case None
    then have "find_from r (c # pre) cs = Some (zs, ze)" using Cons.prems by simp
    from Cons.IH [OF this] obtain u where
      u: "moved (c # pre, cs) u zs" and w: "\<exists>w\<in>lang r. moved zs w ze" by blast
    have "moved (pre, c # cs) [c] (c # pre, cs)" by (simp add: moved_def)
    then have "moved (pre, c # cs) ([c] @ u) zs" using u by (rule moved_trans)
    then show ?thesis using w by blast
  qed
qed

lemma lang_nullable: "[] \<in> lang r \<Longrightarrow> nullable r"
  by (induction r) auto

lemma star_lang_hd:
  assumes "w \<in> star_lang A" "w \<noteq> []" "\<And>u. u \<in> A \<Longrightarrow> u \<noteq> [] \<Longrightarrow> P (hd u)"
  shows "P (hd w)"
  using assms(1,2)
proof (induction rule: star_lang.induct)
  case star_empty
  then show ?case by simp
next
  case (star_more u v)
  show ?case
  proof (cases "u = []")
    case True
    then show ?thesis using star_more by simp
  next
    case False
    then show ?thesis using assms(3) [OF star_more.hyps(1)] by simp
  qed
qed

lemma star_lang_last:
  assumes "w \<in> star_lang A" "w \<noteq> []" "\<And>u. u \<in> A \<Longrightarrow> u \<noteq> [] \<Longrightarrow> P (last u)"
  shows "P (last w)"
  using assms(1,2)
proof (induction rule: star_lang.induct)
  case star_empty
  then show ?case by simp
next
  case (star_more u v)
  show ?case
  proof (cases "v = []")
    case True
    then show ?thesis using assms(3) [OF star_more.hyps(1)] star_more.prems by simp
  next
    case False
    then show ?thesis using star_more by simp
  qed
qed

lemma lang_firstc: "w \<in> lang r \<Longrightarrow> w \<noteq> [] \<Longrightarrow> firstc r (hd w)"
proof (induction r arbitrary: w)
  case (Seq a b)
  from Seq.prems(1) obtain u v where w: "w = u @ v" "u \<in> lang a" "v \<in> lang b" by auto
  show ?case
  proof (cases "u = []")
    case True
    then have "nullable a" using w(2) lang_nullable by blast
    moreover have "firstc b (hd w)" using Seq.IH(2) [OF w(3)] Seq.prems(2) w(1) True by simp
    ultimately show ?thesis by simp
  next
    case False
    then show ?thesis using Seq.IH(1) [OF w(2)] w(1) by simp
  qed
next
  case (Star a)
  from Star.prems(1) have "w \<in> star_lang (lang a)" by simp
  then have "firstc a (hd w)" using Star.prems(2) Star.IH by (rule star_lang_hd)
  then show ?case by simp
qed auto

lemma lang_lastc: "w \<in> lang r \<Longrightarrow> w \<noteq> [] \<Longrightarrow> lastc r (last w)"
proof (induction r arbitrary: w)
  case (Seq a b)
  from Seq.prems(1) obtain u v where w: "w = u @ v" "u \<in> lang a" "v \<in> lang b" by auto
  show ?case
  proof (cases "v = []")
    case True
    then have "nullable b" using w(3) lang_nullable by blast
    moreover have "lastc a (last w)" using Seq.IH(1) [OF w(2)] Seq.prems(2) w(1) True by simp
    ultimately show ?thesis by simp
  next
    case False
    then show ?thesis using Seq.IH(2) [OF w(3)] w(1) by simp
  qed
next
  case (Star a)
  from Star.prems(1) have "w \<in> star_lang (lang a)" by simp
  then have "lastc a (last w)" using Star.prems(2) Star.IH by (rule star_lang_last)
  then show ?case by simp
qed auto

lemma star_lang_set:
  assumes "w \<in> star_lang A" "c \<in> set w" "\<And>u. u \<in> A \<Longrightarrow> c \<in> set u \<Longrightarrow> P"
  shows "P"
  using assms(1,2)
proof (induction rule: star_lang.induct)
  case star_empty
  then show ?case by simp
next
  case (star_more u v)
  then show ?case using assms(3) by auto
qed

lemma lang_chars: "w \<in> lang r \<Longrightarrow> c \<in> set w \<Longrightarrow> chars r c"
proof (induction r arbitrary: w)
  case (Seq a b)
  from Seq.prems(1) obtain u v where w: "w = u @ v" "u \<in> lang a" "v \<in> lang b" by auto
  then show ?case using Seq.IH Seq.prems(2) by auto
next
  case (Star a)
  from Star.prems(1) have "w \<in> star_lang (lang a)" by simp
  then have "chars a c" using Star.prems(2) Star.IH by (rule star_lang_set)
  then show ?case by simp
qed auto

lemma star_lang_successively:
  assumes "w \<in> star_lang A"
      and p: "\<And>u. u \<in> A \<Longrightarrow> successively P u"
      and l: "\<And>u. u \<in> A \<Longrightarrow> u \<noteq> [] \<Longrightarrow> L (last u)"
      and f: "\<And>u. u \<in> A \<Longrightarrow> u \<noteq> [] \<Longrightarrow> F (hd u)"
  shows "successively (\<lambda>x y. P x y \<or> L x \<and> F y) w"
  using assms(1)
proof (induction rule: star_lang.induct)
  case star_empty
  then show ?case by simp
next
  case (star_more u v)
  have u: "successively (\<lambda>x y. P x y \<or> L x \<and> F y) u"
    by (rule successively_mono [OF p [OF star_more.hyps(1)]]) simp
  have j: "u = [] \<or> v = [] \<or> L (last u) \<and> F (hd v)"
  proof (cases "u = [] \<or> v = []")
    case True then show ?thesis by blast
  next
    case False
    then have "L (last u)" using l [OF star_more.hyps(1)] by simp
    moreover have "F (hd v)"
      using star_more.hyps(2) _ f by (rule star_lang_hd) (use False in simp)
    ultimately show ?thesis by simp
  qed
  show ?case
    unfolding successively_append_iff using u star_more.IH j by blast
qed

lemma lang_pairc: "w \<in> lang r \<Longrightarrow> successively (pairc r) w"
proof (induction r arbitrary: w)
  case (Seq a b)
  from Seq.prems(1) obtain u v where w: "w = u @ v" "u \<in> lang a" "v \<in> lang b" by auto
  have u: "successively (pairc (Seq a b)) u"
    by (rule successively_mono [OF Seq.IH(1) [OF w(2)]]) simp
  have v: "successively (pairc (Seq a b)) v"
    by (rule successively_mono [OF Seq.IH(2) [OF w(3)]]) simp
  have j: "u = [] \<or> v = [] \<or> pairc (Seq a b) (last u) (hd v)"
    using lang_lastc [OF w(2)] lang_firstc [OF w(3)] by auto
  show ?case unfolding w(1) successively_append_iff using u v j by blast
next
  case (Alt a b)
  from Alt.prems have "w \<in> lang a \<or> w \<in> lang b" by simp
  then show ?case
  proof
    assume "w \<in> lang a"
    from successively_mono [OF Alt.IH(1) [OF this]] show ?thesis by simp
  next
    assume "w \<in> lang b"
    from successively_mono [OF Alt.IH(2) [OF this]] show ?thesis by simp
  qed
next
  case (Star a)
  from Star.prems(1) have "w \<in> star_lang (lang a)" by simp
  then have "successively (\<lambda>x y. pairc a x y \<or> lastc a x \<and> firstc a y) w"
    using Star.IH lang_lastc lang_firstc by (rule star_lang_successively)
  then show ?case by (rule successively_mono) simp
qed auto

lemma lang_lit: "lang (lit s) = {s}"
  by (induction s) (auto simp: lit_def chr_def)

lemma moved_text: "moved z w z' \<Longrightarrow> rev (fst z') @ snd z' = rev (fst z) @ snd z"
  by (simp add: moved_def)

lemma mk_match_moved:
  assumes "moved zs w ze" "w \<in> lang r"
  shows "raw_match r (rev (fst zs) @ snd zs) (mk_match zs ze)"
    and "start_m (mk_match zs ze) = length (fst zs)"
    and "end_m (mk_match zs ze) = length (fst ze)"
  using assms by (simp_all add: raw_match_def mk_match_def moved_def slice_def)

lemma exec_all_sound:
  "exec_all r z = Some ms \<Longrightarrow>
   (\<forall>m\<in>set ms. length (fst z) \<le> start_m m \<and> raw_match r (rev (fst z) @ snd z) m)
   \<and> sorted_wrt (\<lambda>a b. end_m a \<le> start_m b) ms"
proof (induction r z arbitrary: ms rule: exec_all.induct)
  case (1 r z)
  show ?case
  proof (cases "find_from r (fst z) (snd z)")
    case None
    then have "ms = []" using "1.prems" by (simp add: exec_all.simps)
    then show ?thesis by simp
  next
    case (Some p)
    obtain zs ze where p: "p = (zs, ze)" by (cases p)
    have ff: "find_from r (fst z) (snd z) = Some (zs, ze)" using Some p by simp
    from "1.prems" ff have lt: "length (snd ze) < length (snd z)"
      by (simp add: exec_all.simps split: if_splits)
    from "1.prems" ff lt obtain ms' where
      ms': "exec_all r ze = Some ms'" and ms: "ms = mk_match zs ze # ms'"
      by (auto simp: exec_all.simps)
    from find_from_sound [OF ff] obtain u w where
      u: "moved (fst z, snd z) u zs" and w: "w \<in> lang r" "moved zs w ze" by blast
    have tz: "rev (fst zs) @ snd zs = rev (fst z) @ snd z"
      using moved_text [OF u] by simp
    have te: "rev (fst ze) @ snd ze = rev (fst z) @ snd z"
      using moved_text [OF w(2)] tz by simp
    note mm = mk_match_moved [OF w(2) w(1)]
    have ih: "(\<forall>m\<in>set ms'. length (fst ze) \<le> start_m m \<and> raw_match r (rev (fst z) @ snd z) m)
              \<and> sorted_wrt (\<lambda>a b. end_m a \<le> start_m b) ms'"
      using "1.IH" [OF ff refl lt ms'] unfolding te .
    have s1: "length (fst z) \<le> start_m (mk_match zs ze)"
      using u by (simp add: mm(2) moved_def)
    have s2: "length (fst zs) \<le> length (fst ze)"
      using w(2) by (simp add: moved_def)
    have a: "\<forall>m\<in>set ms. length (fst z) \<le> start_m m \<and> raw_match r (rev (fst z) @ snd z) m"
    proof
      fix m assume "m \<in> set ms"
      then consider "m = mk_match zs ze" | "m \<in> set ms'" using ms by auto
      then show "length (fst z) \<le> start_m m \<and> raw_match r (rev (fst z) @ snd z) m"
      proof cases
        case 1
        then show ?thesis using s1 mm(1) tz by simp
      next
        case 2
        then have "length (fst ze) \<le> start_m m" "raw_match r (rev (fst z) @ snd z) m"
          using ih by simp_all
        moreover have "length (fst z) \<le> length (fst ze)"
          using s1 s2 by (simp add: mm(2))
        ultimately show ?thesis by simp
      qed
    qed
    have b: "sorted_wrt (\<lambda>a b. end_m a \<le> start_m b) ms"
      using ih by (simp add: ms mm(3))
    show ?thesis using a b by simp
  qed
qed

lemma exec_all_total: "\<not> nullable r \<Longrightarrow> \<exists>ms. exec_all r z = Some ms"
proof (induction r z rule: exec_all.induct)
  case (1 r z)
  show ?case
  proof (cases "find_from r (fst z) (snd z)")
    case None
    then show ?thesis by (simp add: exec_all.simps)
  next
    case (Some p)
    obtain zs ze where p: "p = (zs, ze)" by (cases p)
    have ff: "find_from r (fst z) (snd z) = Some (zs, ze)" using Some p by simp
    from find_from_sound [OF ff] obtain u w where
      u: "moved (fst z, snd z) u zs" and w: "w \<in> lang r" "moved zs w ze" by blast
    have "w \<noteq> []" using w(1) "1.prems" lang_nullable by blast
    then have lt: "length (snd ze) < length (snd z)"
      using u w(2) by (simp add: moved_def)
    from "1.IH" [OF ff refl lt "1.prems"] obtain ms' where "exec_all r ze = Some ms'" by blast
    then show ?thesis using ff lt by (simp add: exec_all.simps)
  qed
qed

lemma matchAll_total: "\<not> nullable r \<Longrightarrow> \<exists>ms. matchAll r s = Some ms"
  unfolding matchAll_def by (rule exec_all_total)

lemma matchAll_sound:
  assumes "matchAll r s = Some ms"
  shows "\<forall>m\<in>set ms. raw_match r s m" and "sorted_wrt (\<lambda>a b. end_m a \<le> start_m b) ms"
  using exec_all_sound [of r "([], s)" ms] assms by (simp_all add: matchAll_def)

lemma raw_match_nonempty:
  assumes "raw_match r s m" "\<not> nullable r"
  shows "start_m m < end_m m"
proof -
  have "text_m m \<noteq> []" using assms lang_nullable by (auto simp: raw_match_def)
  then show ?thesis using assms(1) by (auto simp: raw_match_def slice_def)
qed

lemma slice_nth: "a + i < b \<Longrightarrow> b \<le> length s \<Longrightarrow> slice s a b ! i = s ! (a + i)"
  by (simp add: slice_def)

lemma slice_length: "b \<le> length s \<Longrightarrow> length (slice s a b) = b - a"
  by (simp add: slice_def)

lemma slice_last: "a < b \<Longrightarrow> b \<le> length s \<Longrightarrow> last (slice s a b) = s ! (b - 1)"
proof -
  assume a: "a < b" "b \<le> length s"
  then have n: "slice s a b \<noteq> []" by (simp add: slice_def)
  have "last (slice s a b) = slice s a b ! (length (slice s a b) - 1)"
    using n by (rule last_conv_nth)
  also have "\<dots> = slice s a b ! (b - a - 1)" using a by (simp add: slice_length)
  also have "\<dots> = s ! (a + (b - a - 1))" using a by (intro slice_nth) simp_all
  also have "a + (b - a - 1) = b - 1" using a by simp
  finally show ?thesis .
qed

lemma slice_hd: "a < b \<Longrightarrow> b \<le> length s \<Longrightarrow> hd (slice s a b) = s ! a"
  by (simp add: slice_def hd_drop_conv_nth)

subsection \<open>What the five patterns match\<close>

lemma patterns_not_nullable:
  "\<not> nullable CASE_RE" "\<not> nullable STATUTE_RE" "\<not> nullable SHORT_FORM_RE"
  "\<not> nullable ID_RE" "\<not> nullable SIGNAL_RE"
  by (simp_all add: re_defs js_def)

lemma CASE_RE_last: "lastc CASE_RE c \<Longrightarrow> is_digit c \<or> c = 41"
  by (simp add: re_defs js_def) blast

lemma STATUTE_RE_last: "lastc STATUTE_RE c \<Longrightarrow> is_digit c \<or> c = 41"
  by (simp add: re_defs js_def) blast

lemma SHORT_FORM_RE_last: "lastc SHORT_FORM_RE c \<Longrightarrow> is_digit c"
  by (simp add: re_defs js_def)

lemma SIGNAL_RE_chars: "chars SIGNAL_RE c \<Longrightarrow> \<not> is_digit c \<and> c \<noteq> 41"
  by (auto simp add: re_defs js_def chr_defs)

lemma SIGNAL_RE_first: "firstc SIGNAL_RE c \<Longrightarrow> c \<noteq> 46"
  by (auto simp add: re_defs js_def)

lemma SIGNAL_RE_pair: "\<not> pairc SIGNAL_RE 100 46"
  by (simp add: re_defs js_def chr_defs)

lemma raw_matchD:
  assumes "raw_match r text m"
  shows "end_m m \<le> length text" and "text_m m = slice text (start_m m) (end_m m)"
    and "text_m m \<in> lang r"
  using assms unfolding raw_match_def by blast+

lemma lang_lit_opt:
  "w \<in> lang (seqs [WordB, lit s, Opt x]) \<Longrightarrow> w = s \<or> (\<exists>v\<in>lang x. w = s @ v)"
  by (auto simp: seqs_def Opt_def lang_lit)

lemma ID_RE_end:
  assumes "w \<in> lang ID_RE"
  shows "w = [73, 100, 46] \<or> (w \<noteq> [] \<and> is_digit (last w))"
proof -
  let ?x = "seqs [Plus ws, lit (js ''at''), Plus ws, Plus digit,
                  Opt (seqs [Cls (\<lambda>c. c = 44 \<or> c = 8211 \<or> c = 45), Star ws, Plus digit])]"
  have s: "js ''Id.'' = [73, 100, 46]" by (simp add: js_def)
  from assms have "w = js ''Id.'' \<or> (\<exists>v\<in>lang ?x. w = js ''Id.'' @ v)"
    unfolding ID_RE_def by (rule lang_lit_opt)
  then show ?thesis
  proof
    assume "w = js ''Id.''"
    then show ?thesis by (simp add: s)
  next
    assume "\<exists>v\<in>lang ?x. w = js ''Id.'' @ v"
    then obtain v where v: "v \<in> lang ?x" "w = js ''Id.'' @ v" by blast
    have "\<not> nullable ?x" by (simp add: re_defs js_def)
    then have n: "v \<noteq> []" using v(1) lang_nullable by blast
    have "lastc ?x (last v)" using v(1) n by (rule lang_lastc)
    then have "is_digit (last v)" by (simp add: re_defs js_def)
    then show ?thesis using v(2) n by simp
  qed
qed

lemma raw_match_last:
  assumes "raw_match r text m" "\<not> nullable r" "\<And>c. lastc r c \<Longrightarrow> is_digit c \<or> c = 41"
  shows "cite_match text m"
proof -
  have lt: "start_m m < end_m m" using assms(1,2) by (rule raw_match_nonempty)
  have le: "end_m m \<le> length text" and tx: "text_m m = slice text (start_m m) (end_m m)"
    and lg: "text_m m \<in> lang r"
    using raw_matchD [OF assms(1)] .
  have ne: "text_m m \<noteq> []" using lg assms(2) lang_nullable by auto
  have "lastc r (last (text_m m))" using lg ne by (rule lang_lastc)
  then have "lastc r (text ! (end_m m - 1))" using slice_last [OF lt le] tx by simp
  from assms(3) [OF this] show ?thesis
    using lt le tx by (auto simp: cite_match_def good_end_def)
qed

lemma raw_match_ID:
  assumes "raw_match ID_RE text m"
  shows "cite_match text m"
proof -
  have lt: "start_m m < end_m m"
    using assms patterns_not_nullable(4) by (rule raw_match_nonempty)
  have le: "end_m m \<le> length text" and tx: "text_m m = slice text (start_m m) (end_m m)"
    and lg: "text_m m \<in> lang ID_RE"
    using raw_matchD [OF assms] .
  from ID_RE_end [OF lg] show ?thesis
  proof
    assume w: "text_m m = [73, 100, 46]"
    have "length (slice text (start_m m) (end_m m)) = end_m m - start_m m"
      using le by (rule slice_length)
    then have l: "end_m m = start_m m + 3" using w tx lt by simp
    have "slice text (start_m m) (end_m m) ! 1 = text ! (start_m m + 1)"
      using l le by (intro slice_nth) simp_all
    then have a: "text ! (end_m m - 2) = 100" using w tx l by simp
    have "slice text (start_m m) (end_m m) ! 2 = text ! (start_m m + 2)"
      using l le by (intro slice_nth) simp_all
    then have b: "text ! (end_m m - 1) = 46" using w tx l by simp
    show ?thesis using lt le tx a b l by (simp add: cite_match_def good_end_def)
  next
    assume "text_m m \<noteq> [] \<and> is_digit (last (text_m m))"
    then have "is_digit (text ! (end_m m - 1))" using slice_last [OF lt le] tx by simp
    then show ?thesis using lt le tx by (simp add: cite_match_def good_end_def)
  qed
qed

lemma raw_match_SIGNAL:
  assumes "raw_match SIGNAL_RE text s"
  shows "signal_match text s"
proof -
  have lt: "start_m s < end_m s"
    using assms patterns_not_nullable(5) by (rule raw_match_nonempty)
  have le: "end_m s \<le> length text" and tx: "text_m s = slice text (start_m s) (end_m s)"
    and lg: "text_m s \<in> lang SIGNAL_RE"
    using raw_matchD [OF assms] .
  have len: "length (text_m s) = end_m s - start_m s" using le tx by (simp add: slice_length)
  have nth: "text_m s ! (i - start_m s) = text ! i" if "start_m s \<le> i" "i < end_m s" for i
  proof -
    have "slice text (start_m s) (end_m s) ! (i - start_m s) = text ! (start_m s + (i - start_m s))"
      using that le by (intro slice_nth) simp_all
    then show ?thesis using that tx by simp
  qed
  have c: "\<not> is_digit (text ! i) \<and> text ! i \<noteq> 41" if "start_m s \<le> i" "i < end_m s" for i
  proof -
    have "text_m s ! (i - start_m s) \<in> set (text_m s)"
      using that len by (intro nth_mem) simp
    then have "text ! i \<in> set (text_m s)" using nth [OF that] by simp
    from lang_chars [OF lg this] show ?thesis by (rule SIGNAL_RE_chars)
  qed
  have ne: "text_m s \<noteq> []" using len lt by auto
  have "firstc SIGNAL_RE (hd (text_m s))" using lg ne by (rule lang_firstc)
  then have f: "text ! start_m s \<noteq> 46"
    using slice_hd [OF lt le] tx SIGNAL_RE_first by simp
  have p: "\<not> (text ! i = 100 \<and> text ! Suc i = 46)" if "start_m s \<le> i" "Suc i < end_m s" for i
  proof -
    have "Suc (i - start_m s) < length (text_m s)" using that len by simp
    with lang_pairc [OF lg]
    have "pairc SIGNAL_RE (text_m s ! (i - start_m s)) (text_m s ! Suc (i - start_m s))"
      by (rule successively_nth)
    moreover have "text_m s ! (i - start_m s) = text ! i" using that by (intro nth) simp_all
    moreover have "Suc (i - start_m s) = Suc i - start_m s" using that by simp
    then have "text_m s ! Suc (i - start_m s) = text ! Suc i"
      using that nth [of "Suc i"] by simp
    ultimately show ?thesis using SIGNAL_RE_pair by auto
  qed
  show ?thesis using lt le c f p by (simp add: signal_match_def)
qed

text \<open>No signal runs over the end of a citation.\<close>

lemma no_straddle:
  assumes g: "good_end text e" and s: "signal_match text s"
      and a: "start_m s < e" and b: "e \<le> end_m s"
  shows False
proof -
  have i: "start_m s \<le> e - 1" "e - 1 < end_m s" using a b by simp_all
  from s i have d: "\<not> is_digit (text ! (e - 1))" "text ! (e - 1) \<noteq> 41"
    by (simp_all add: signal_match_def)
  with g have e2: "2 \<le> e" and x: "text ! (e - 2) = 100" and y: "text ! (e - 1) = 46"
    by (auto simp: good_end_def)
  show False
  proof (cases "start_m s = e - 1")
    case True
    then show ?thesis using s y by (simp add: signal_match_def)
  next
    case False
    then have j: "start_m s \<le> e - 2" "Suc (e - 2) < end_m s" using a b e2 by simp_all
    have "Suc (e - 2) = e - 1" using e2 by simp
    then have "text ! (e - 2) = 100 \<and> text ! Suc (e - 2) = 46" using x y by simp
    moreover from s j have "\<not> (text ! (e - 2) = 100 \<and> text ! Suc (e - 2) = 46)"
      unfolding signal_match_def by blast
    ultimately show ?thesis by blast
  qed
qed

lemma merged_ok_Nil: "merged_ok text []"
  by (simp add: merged_ok_def)

lemma merged_ok_snoc:
  "merged_ok text (xs @ [l]) \<longleftrightarrow>
     merged_ok text xs \<and> cite_match text l \<and> (\<forall>x\<in>set xs. end_m x < start_m l)"
  by (auto simp: merged_ok_def sorted_wrt_append)

lemma merge_step_ok:
  assumes ok: "merged_ok text ms" and m: "cite_match text m"
  shows "merged_ok text (merge_step text ms m)"
proof (cases "ms = []")
  case True
  then show ?thesis using m by (simp add: merge_step_def merged_ok_def)
next
  case False
  then obtain xs l where ms: "ms = xs @ [l]" by (cases ms rule: rev_cases) auto
  from ok have xs: "merged_ok text xs" and l: "cite_match text l"
    and g: "\<forall>x\<in>set xs. end_m x < start_m l"
    unfolding ms merged_ok_snoc by blast+
  have ll: "start_m l < end_m l" using l by (simp add: cite_match_def)
  show ?thesis
  proof (cases "start_m m \<le> end_m l")
    case near: True
    show ?thesis
    proof (cases "end_m m > end_m l")
      case True
      let ?l = "l\<lparr> end_m := end_m m, text_m := slice text (start_m l) (end_m m) \<rparr>"
      have st: "merge_step text ms m = xs @ [?l]"
        using near True by (simp add: merge_step_def ms)
      have "cite_match text ?l" using m ll True by (simp add: cite_match_def)
      moreover have "\<forall>x\<in>set xs. end_m x < start_m ?l" using g by simp
      ultimately show ?thesis unfolding st merged_ok_snoc using xs by blast
    next
      case False
      then have "merge_step text ms m = ms" using near by (simp add: merge_step_def ms)
      then show ?thesis using ok by simp
    qed
  next
    case far: False
    then have st: "merge_step text ms m = ms @ [m]" by (simp add: merge_step_def ms)
    have "\<forall>x\<in>set ms. end_m x < start_m m"
    proof
      fix x assume "x \<in> set ms"
      then consider "x = l" | "x \<in> set xs" using ms by auto
      then show "end_m x < start_m m"
      proof cases
        case 1 then show ?thesis using far by simp
      next
        case 2
        then have "end_m x < start_m l" using g by simp
        then show ?thesis using ll far by simp
      qed
    qed
    then show ?thesis unfolding st merged_ok_snoc using ok m by blast
  qed
qed

lemma merge_fold_ok:
  "merged_ok text acc \<Longrightarrow> \<forall>m\<in>set ms. cite_match text m \<Longrightarrow>
   merged_ok text (foldl (merge_step text) acc ms)"
proof (induction ms arbitrary: acc)
  case Nil then show ?case by simp
next
  case (Cons m ms)
  have "merged_ok text (merge_step text acc m)"
    using Cons.prems by (intro merge_step_ok) simp_all
  then show ?case using Cons.IH Cons.prems(2) by simp
qed

lemma fuse_skip:
  "\<forall>s\<in>set sigs. start_m cit < end_m s \<Longrightarrow> foldl (fuse_step text) cit sigs = cit"
proof (induction sigs)
  case Nil then show ?case by simp
next
  case (Cons s sigs)
  then have "fuse_step text cit s = cit" by (simp add: fuse_step_def)
  then show ?case using Cons by simp
qed

lemma fuse_result:
  assumes "sorted_wrt (\<lambda>a b. end_m a \<le> start_m b) sigs"
      and "\<forall>s\<in>set sigs. start_m s < end_m s"
  shows "foldl (fuse_step text) cit sigs = cit \<or>
         (\<exists>s\<in>set sigs. (end_m s = start_m cit \<or> Suc (end_m s) = start_m cit) \<and>
            foldl (fuse_step text) cit sigs
              = cit\<lparr> start_m := start_m s, text_m := slice text (start_m s) (end_m cit) \<rparr>)"
  using assms
proof (induction sigs)
  case Nil then show ?case by simp
next
  case (Cons s sigs)
  have srt: "sorted_wrt (\<lambda>a b. end_m a \<le> start_m b) sigs"
    and nxt: "\<forall>r\<in>set sigs. end_m s \<le> start_m r"
    and pos: "start_m s < end_m s" "\<forall>r\<in>set sigs. start_m r < end_m r"
    using Cons.prems by simp_all
  show ?case
  proof (cases "end_m s = start_m cit \<or> Suc (end_m s) = start_m cit")
    case True
    let ?c = "cit\<lparr> start_m := start_m s, text_m := slice text (start_m s) (end_m cit) \<rparr>"
    have f: "fuse_step text cit s = ?c" using True by (auto simp: fuse_step_def)
    have "\<forall>r\<in>set sigs. start_m ?c < end_m r"
    proof
      fix r assume r: "r \<in> set sigs"
      then have "end_m s \<le> start_m r" "start_m r < end_m r" using nxt pos(2) by simp_all
      then show "start_m ?c < end_m r" using pos(1) by simp
    qed
    then have "foldl (fuse_step text) ?c sigs = ?c" by (rule fuse_skip)
    then have "foldl (fuse_step text) cit (s # sigs) = ?c" using f by simp
    then show ?thesis using True by auto
  next
    case False
    then have f: "fuse_step text cit s = cit" by (auto simp: fuse_step_def)
    from Cons.IH [OF srt pos(2)] show ?thesis unfolding foldl_Cons f by auto
  qed
qed

lemma fuse_bounds:
  assumes srt: "sorted_wrt (\<lambda>a b. end_m a \<le> start_m b) sigs"
      and sg: "\<forall>s\<in>set sigs. signal_match text s"
      and c: "cite_match text cit"
      and p: "p = 0 \<or> good_end text p \<and> p < start_m cit"
  shows "matches_from text p [foldl (fuse_step text) cit sigs]
         \<and> end_m (foldl (fuse_step text) cit sigs) = end_m cit"
proof -
  have pos: "\<forall>s\<in>set sigs. start_m s < end_m s" using sg by (simp add: signal_match_def)
  have c': "start_m cit < end_m cit" "end_m cit \<le> length text"
    "text_m cit = slice text (start_m cit) (end_m cit)"
    using c by (simp_all add: cite_match_def)
  from fuse_result [OF srt pos, of "text" cit] show ?thesis
  proof
    assume "foldl (fuse_step text) cit sigs = cit"
    then show ?thesis using c' p by auto
  next
    assume "\<exists>s\<in>set sigs. (end_m s = start_m cit \<or> Suc (end_m s) = start_m cit) \<and>
            foldl (fuse_step text) cit sigs
              = cit\<lparr> start_m := start_m s, text_m := slice text (start_m s) (end_m cit) \<rparr>"
    then obtain s where s: "s \<in> set sigs"
      and e: "end_m s = start_m cit \<or> Suc (end_m s) = start_m cit"
      and f: "foldl (fuse_step text) cit sigs
              = cit\<lparr> start_m := start_m s, text_m := slice text (start_m s) (end_m cit) \<rparr>"
      by blast
    have sm: "signal_match text s" using sg s by simp
    have ss: "start_m s < end_m s" using pos s by simp
    have lo: "p \<le> start_m s"
    proof (cases "p = 0")
      case True then show ?thesis by simp
    next
      case False
      then have g: "good_end text p" and lt: "p < start_m cit" using p by simp_all
      have "p \<le> end_m s" using e lt by auto
      then have "\<not> start_m s < p" using no_straddle [OF g sm] by blast
      then show ?thesis by simp
    qed
    have "start_m s < end_m cit" using e ss c'(1) by auto
    then show ?thesis using f lo c'(2) by simp
  qed
qed

lemma fused_from:
  assumes srt: "sorted_wrt (\<lambda>a b. end_m a \<le> start_m b) sigs"
      and sg: "\<forall>s\<in>set sigs. signal_match text s"
  shows "merged_ok text ms \<Longrightarrow> p = 0 \<or> good_end text p \<and> (\<forall>m\<in>set ms. p < start_m m) \<Longrightarrow>
         matches_from text p (map (\<lambda>cit. foldl (fuse_step text) cit sigs) ms)"
proof (induction ms arbitrary: p)
  case Nil then show ?case by simp
next
  case (Cons m ms)
  have c: "cite_match text m" and rest: "merged_ok text ms"
    and gap: "\<forall>r\<in>set ms. end_m m < start_m r"
    using Cons.prems(1) by (simp_all add: merged_ok_def)
  have p: "p = 0 \<or> good_end text p \<and> p < start_m m" using Cons.prems(2) by auto
  from fuse_bounds [OF srt sg c p]
  have h: "matches_from text p [foldl (fuse_step text) m sigs]"
    and e: "end_m (foldl (fuse_step text) m sigs) = end_m m" by blast+
  have "good_end text (end_m m)" using c by (simp add: cite_match_def)
  then have "matches_from text (end_m m) (map (\<lambda>cit. foldl (fuse_step text) cit sigs) ms)"
    using gap by (intro Cons.IH [OF rest]) simp
  then show ?case using h e by simp
qed

lemma contexts_from:
  "matches_from text p ms \<Longrightarrow>
   spans_from text p (map (\<lambda>(i, m). mk_context text n i m) (enumerate k ms))"
  by (induction ms arbitrary: p k) (simp_all add: mk_context_def Let_def)

lemma extractCitations_invariants:
  "\<exists>spans. extractCitations text n = Some spans \<and> span_invariants text spans"
proof -
  obtain m1 where m1: "matchAll CASE_RE text = Some m1"
    using matchAll_total [OF patterns_not_nullable(1)] by blast
  obtain m2 where m2: "matchAll STATUTE_RE text = Some m2"
    using matchAll_total [OF patterns_not_nullable(2)] by blast
  obtain m3 where m3: "matchAll SHORT_FORM_RE text = Some m3"
    using matchAll_total [OF patterns_not_nullable(3)] by blast
  obtain m4 where m4: "matchAll ID_RE text = Some m4"
    using matchAll_total [OF patterns_not_nullable(4)] by blast
  obtain sigs where sigs: "matchAll SIGNAL_RE text = Some sigs"
    using matchAll_total [OF patterns_not_nullable(5)] by blast
  let ?all = "sort_matches (m1 @ m2 @ m3 @ m4)"
  let ?merged = "foldl (merge_step text) [] ?all"
  let ?fused = "map (\<lambda>cit. foldl (fuse_step text) cit sigs) ?merged"
  let ?spans = "map (\<lambda>(i, m). mk_context text n i m) (enumerate 0 ?fused)"
  have run: "extractCitations text n = Some ?spans"
    by (simp add: extractCitations_def m1 m2 m3 m4 sigs Let_def)
  have c1: "\<forall>m\<in>set m1. cite_match text m"
    using matchAll_sound(1) [OF m1] raw_match_last [OF _ patterns_not_nullable(1) CASE_RE_last]
    by blast
  have c2: "\<forall>m\<in>set m2. cite_match text m"
    using matchAll_sound(1) [OF m2] raw_match_last [OF _ patterns_not_nullable(2) STATUTE_RE_last]
    by blast
  have c3: "\<forall>m\<in>set m3. cite_match text m"
    using matchAll_sound(1) [OF m3] raw_match_last [OF _ patterns_not_nullable(3)] SHORT_FORM_RE_last
    by blast
  have c4: "\<forall>m\<in>set m4. cite_match text m"
    using matchAll_sound(1) [OF m4] raw_match_ID by blast
  have "\<forall>m\<in>set ?all. cite_match text m"
    using c1 c2 c3 c4 by (auto simp: sort_matches_def)
  then have mg: "merged_ok text ?merged"
    by (rule merge_fold_ok [OF merged_ok_Nil])
  have sg: "\<forall>s\<in>set sigs. signal_match text s"
    using matchAll_sound(1) [OF sigs] raw_match_SIGNAL by blast
  have "matches_from text 0 ?fused"
    by (rule fused_from [OF matchAll_sound(2) [OF sigs] sg mg]) simp
  then have "spans_from text 0 ?spans" by (rule contexts_from)
  moreover have "map id' ?spans = [0..<length ?spans]"
    using extractCitations_ids [OF run] .
  ultimately show ?thesis using run by (simp add: span_invariants_def)
qed

lemma extract_signal: "extractCitations ex_signal_text 100 = Some ex_signal_spans"
  by (simp add: ex_signal_text_def ex_signal_spans_def extract_defs rx_defs re_defs str_defs chr_defs)

lemma spans_from_nth:
  "spans_from text p spans \<Longrightarrow> k < length spans \<Longrightarrow>
   p \<le> start (spans ! k) \<and> start (spans ! k) < end' (spans ! k) \<and>
   end' (spans ! k) \<le> length text \<and>
   original (spans ! k) = slice text (start (spans ! k)) (end' (spans ! k))"
proof (induction spans arbitrary: p k)
  case Nil then show ?case by simp
next
  case (Cons c cs)
  show ?case
  proof (cases k)
    case 0
    then show ?thesis using Cons.prems by simp
  next
    case (Suc k')
    then have "k' < length cs" "spans_from text (end' c) cs" using Cons.prems by simp_all
    from Cons.IH [OF this(2) this(1)] show ?thesis using Cons.prems(1) Suc by simp
  qed
qed

lemma spans_from_apart:
  "spans_from text p spans \<Longrightarrow> j < k \<Longrightarrow> k < length spans \<Longrightarrow>
   end' (spans ! j) \<le> start (spans ! k)"
proof (induction spans arbitrary: p j k)
  case Nil then show ?case by simp
next
  case (Cons c cs)
  from Cons.prems obtain k' where k: "k = Suc k'" "k' < length cs" by (cases k) auto
  have sp: "spans_from text (end' c) cs" using Cons.prems(1) by simp
  show ?case
  proof (cases j)
    case 0
    then show ?thesis using spans_from_nth [OF sp k(2)] k(1) by simp
  next
    case (Suc j')
    then have "j' < k'" using Cons.prems(2) k(1) by simp
    from Cons.IH [OF sp this k(2)] show ?thesis using Suc k(1) by simp
  qed
qed

lemma span_invariants_id:
  "span_invariants text spans \<Longrightarrow> k < length spans \<Longrightarrow> id' (spans ! k) = k"
proof -
  assume a: "span_invariants text spans" "k < length spans"
  then have "map id' spans ! k = [0..<length spans] ! k" by (simp add: span_invariants_def)
  then show ?thesis using a(2) by simp
qed


subsection \<open>Claims about the extracted spans\<close>

text \<open>
  Claim C9. For every text and context width, \<open>extractCitations\<close> returns, and every
  span it returns has \<open>start < end \<le> length text\<close> (offsets are natural numbers, so
  \<open>0 \<le> start\<close>), its stored text is the text from \<open>start\<close> to \<open>end\<close>, also after
  merging and after the fusion with a signal, its id is its index in the result, and
  the spans before it start before it: ids are 0, 1, 2, ... from left to right.
\<close>
theorem extractCitations_spans_well_formed:
  "\<exists>spans. extractCitations text n = Some spans \<and>
     (\<forall>k<length spans.
        start (spans ! k) < end' (spans ! k) \<and> end' (spans ! k) \<le> length text \<and>
        original (spans ! k) = slice text (start (spans ! k)) (end' (spans ! k)) \<and>
        id' (spans ! k) = k \<and>
        (\<forall>j<k. start (spans ! j) < start (spans ! k)))"
proof -
  from extractCitations_invariants [of "text" n] obtain spans where
    run: "extractCitations text n = Some spans" and inv: "span_invariants text spans" by blast
  from inv have sp: "spans_from text 0 spans" by (simp add: span_invariants_def)
  have "start (spans ! k) < end' (spans ! k) \<and> end' (spans ! k) \<le> length text \<and>
        original (spans ! k) = slice text (start (spans ! k)) (end' (spans ! k)) \<and>
        id' (spans ! k) = k \<and>
        (\<forall>j<k. start (spans ! j) < start (spans ! k))" if k: "k < length spans" for k
  proof -
    have a: "start (spans ! k) < end' (spans ! k) \<and> end' (spans ! k) \<le> length text \<and>
        original (spans ! k) = slice text (start (spans ! k)) (end' (spans ! k))"
      using spans_from_nth [OF sp k] by simp
    have b: "id' (spans ! k) = k" using inv k by (rule span_invariants_id)
    have c: "start (spans ! j) < start (spans ! k)" if j: "j < k" for j
    proof -
      have "j < length spans" using j k by simp
      then have "start (spans ! j) < end' (spans ! j)" using spans_from_nth [OF sp] by simp
      moreover have "end' (spans ! j) \<le> start (spans ! k)" using sp j k by (rule spans_from_apart)
      ultimately show ?thesis by simp
    qed
    show ?thesis using a b c by simp
  qed
  then show ?thesis using run by blast
qed

theorem extractCitations_spans_well_formed_witness:
  "extractCitations ex_signal_text 100 = Some ex_signal_spans
   \<and> start (ex_signal_spans ! 1) = 4 \<and> end' (ex_signal_spans ! 1) = 11
   \<and> original (ex_signal_spans ! 1) = slice ex_signal_text 4 11
   \<and> id' (ex_signal_spans ! 1) = 1
   \<and> start (ex_signal_spans ! 0) < start (ex_signal_spans ! 1)"
proof -
  from extractCitations_spans_well_formed [of ex_signal_text 100]
  have w: "\<forall>k<length ex_signal_spans.
        start (ex_signal_spans ! k) < end' (ex_signal_spans ! k) \<and>
        end' (ex_signal_spans ! k) \<le> length ex_signal_text \<and>
        original (ex_signal_spans ! k)
          = slice ex_signal_text (start (ex_signal_spans ! k)) (end' (ex_signal_spans ! k)) \<and>
        id' (ex_signal_spans ! k) = k \<and>
        (\<forall>j<k. start (ex_signal_spans ! j) < start (ex_signal_spans ! k))"
    unfolding extract_signal by simp
  have k: "1 < length ex_signal_spans" by (simp add: ex_signal_spans_def)
  have s: "start (ex_signal_spans ! 1) = 4" "end' (ex_signal_spans ! 1) = 11"
    by (simp_all add: ex_signal_spans_def)
  from w [rule_format, OF k]
  have "original (ex_signal_spans ! 1) = slice ex_signal_text 4 11"
    and "id' (ex_signal_spans ! 1) = 1"
    and "\<forall>j<1. start (ex_signal_spans ! j) < start (ex_signal_spans ! 1)"
    unfolding s by blast+
  then show ?thesis using extract_signal s by simp
qed

text \<open>
  Claim C10. For every text and context width, the spans that \<open>extractCitations\<close>
  returns are pairwise apart: a span ends at or before the start of every later span,
  and starts strictly before it. The returned spans are those after the fusion with
  signals, which moves starts backward; no signal reaches back over the end of the
  citation before it.
\<close>
theorem extractCitations_spans_disjoint:
  "\<exists>spans. extractCitations text n = Some spans \<and>
     (\<forall>j k. j < k \<and> k < length spans \<longrightarrow>
        end' (spans ! j) \<le> start (spans ! k) \<and> start (spans ! j) < start (spans ! k))"
proof -
  from extractCitations_invariants [of "text" n] obtain spans where
    run: "extractCitations text n = Some spans" and inv: "span_invariants text spans" by blast
  from inv have sp: "spans_from text 0 spans" by (simp add: span_invariants_def)
  have "end' (spans ! j) \<le> start (spans ! k) \<and> start (spans ! j) < start (spans ! k)"
    if jk: "j < k" "k < length spans" for j k
  proof -
    have "j < length spans" using jk by simp
    then have "start (spans ! j) < end' (spans ! j)" using spans_from_nth [OF sp] by simp
    moreover have "end' (spans ! j) \<le> start (spans ! k)" using sp jk by (rule spans_from_apart)
    ultimately show ?thesis by simp
  qed
  then show ?thesis using run by blast
qed

theorem extractCitations_spans_disjoint_witness:
  "extractCitations ex_signal_text 100 = Some ex_signal_spans
   \<and> end' (ex_signal_spans ! 0) \<le> start (ex_signal_spans ! 1)
   \<and> start (ex_signal_spans ! 0) < start (ex_signal_spans ! 1)
   \<and> start (ex_signal_spans ! 1) = 4"
proof -
  from extractCitations_spans_disjoint [of ex_signal_text 100]
  have w: "\<forall>j k. j < k \<and> k < length ex_signal_spans \<longrightarrow>
        end' (ex_signal_spans ! j) \<le> start (ex_signal_spans ! k) \<and>
        start (ex_signal_spans ! j) < start (ex_signal_spans ! k)"
    unfolding extract_signal by simp
  have k: "0 < (1::nat) \<and> 1 < length ex_signal_spans" by (simp add: ex_signal_spans_def)
  from w [rule_format, OF k]
  have "end' (ex_signal_spans ! 0) \<le> start (ex_signal_spans ! 1) \<and>
        start (ex_signal_spans ! 0) < start (ex_signal_spans ! 1)" .
  moreover have "start (ex_signal_spans ! 1) = 4" by (simp add: ex_signal_spans_def)
  ultimately show ?thesis using extract_signal by simp
qed


subsection \<open>Runs of the pipeline\<close>

lemma slice_map_nth: "slice xs a b = map ((!) xs) [a..<min b (length xs)]"
proof -
  have "slice xs a b = slice (map ((!) xs) [0..<length xs]) a b" by (simp add: map_nth)
  also have "\<dots> = map ((!) xs) (slice [0..<length xs] a b)"
    by (simp add: slice_def take_map drop_map)
  also have "\<dots> = map ((!) xs) [a..<min b (length xs)]" by (simp only: slice_upt)
  finally show ?thesis .
qed

lemma batch_of_nth:
  "batch_of spans B k = map ((!) spans) [k * B..<min ((k + 1) * B) (length spans)]"
  unfolding batch_of_def slice_map_nth by simp

lemma user_line_labelled: "user_line c = labelled_line (id' c) c"
  by (simp add: user_line_def labelled_line_def js_def)

lemma buildMessages_data:
  "length (buildMessages batch rls) = 2"
  "role (buildMessages batch rls ! 1) = js ''user''"
  "content (buildMessages batch rls ! 1) = join_lines (map user_line batch)"
  by (simp_all add: buildMessages_def Let_def)

lemma batch_data_message:
  "join_lines (map user_line (batch_of (spans_of text opts) B k))
   = data_message (spans_of text opts) [k * B..<min ((k + 1) * B) (length (spans_of text opts))]"
proof -
  let ?S = "spans_of text opts"
  let ?ids = "[k * B..<min ((k + 1) * B) (length ?S)]"
  have "map user_line (batch_of ?S B k) = map (\<lambda>i. user_line (?S ! i)) ?ids"
    unfolding batch_of_nth by (simp add: comp_def)
  also have "\<dots> = map (\<lambda>i. labelled_line i (?S ! i)) ?ids"
  proof (rule map_cong [OF refl])
    fix i assume "i \<in> set ?ids"
    then have i: "i < length ?S" by simp
    have "map id' ?S ! i = [0..<length ?S] ! i" using spans_of_ids [of "text" opts] by simp
    then have "id' (?S ! i) = i" using i by simp
    then show "user_line (?S ! i) = labelled_line i (?S ! i)" by (simp add: user_line_labelled)
  qed
  finally show ?thesis by (simp add: data_message_def)
qed

lemma batch_loop_accepts:
  assumes "0 < bs"
  shows "Suc k < length (snd (batch_loop llmFn rls contexts bs i st acc)) \<Longrightarrow>
         \<exists>cs. batch_result (snd (snd (batch_loop llmFn rls contexts bs i st acc) ! k))
           (map id' (slice contexts (i + k * bs) (i + k * bs + bs))) = Inr cs"
proof (induction k arbitrary: i st acc)
  case 0
  show ?case
    using assms
  proof (cases rule: batch_loop_cases [where i = i and contexts = contexts and llmFn = llmFn and rls = rls and st = st and acc = acc])
    case stop
    then show ?thesis using "0.prems" by simp
  next
    case (fail reply e)
    then show ?thesis using "0.prems" by simp
  next
    case (continue reply st' cs)
    then show ?thesis by simp
  qed
next
  case (Suc k)
  show ?case
    using assms
  proof (cases rule: batch_loop_cases [where i = i and contexts = contexts and llmFn = llmFn and rls = rls and st = st and acc = acc])
    case stop
    then show ?thesis using Suc.prems by simp
  next
    case (fail reply e)
    then show ?thesis using Suc.prems by simp
  next
    case (continue reply st' cs)
    have "Suc k < length (snd (batch_loop llmFn rls contexts bs (i + bs) st' (acc @ cs)))"
      using Suc.prems continue(3) by simp
    from Suc.IH [OF this]
    obtain cs' where "batch_result (snd (snd (batch_loop llmFn rls contexts bs (i + bs) st' (acc @ cs)) ! k))
           (map id' (slice contexts (i + bs + k * bs) (i + bs + k * bs + bs))) = Inr cs'" by blast
    then show ?thesis using continue(3) by (simp add: ac_simps)
  qed
qed

lemma batch_loop_all_accepted:
  assumes "0 < bs"
  shows "\<forall>k<length (snd (batch_loop llmFn rls contexts bs i st acc)).
           \<exists>cs. batch_result (snd (snd (batch_loop llmFn rls contexts bs i st acc) ! k))
             (map id' (slice contexts (i + k * bs) (i + k * bs + bs))) = Inr cs \<Longrightarrow>
         length (snd (batch_loop llmFn rls contexts bs i st acc))
           = (length contexts - i + bs - 1) div bs"
proof (induction "length contexts - i" arbitrary: i st acc rule: less_induct)
  case less
  show ?case
    using assms
  proof (cases rule: batch_loop_cases [where i = i and contexts = contexts and llmFn = llmFn and rls = rls and st = st and acc = acc])
    case stop
    then have "length contexts - i = 0" by simp
    then have "(length contexts - i + bs - 1) div bs = 0" using assms by simp
    then show ?thesis using stop by simp
  next
    case (fail reply e)
    have "\<exists>cs. batch_result (snd (snd (batch_loop llmFn rls contexts bs i st acc) ! 0))
             (map id' (slice contexts (i + 0 * bs) (i + 0 * bs + bs))) = Inr cs"
      using less.prems fail(3) by (intro less.prems [rule_format]) simp
    then show ?thesis using fail by simp
  next
    case (continue reply st' cs)
    let ?L' = "batch_loop llmFn rls contexts bs (i + bs) st' (acc @ cs)"
    have d: "length contexts - (i + bs) < length contexts - i" using continue(1) assms by simp
    have "\<forall>k<length (snd ?L').
           \<exists>cs'. batch_result (snd (snd ?L' ! k))
             (map id' (slice contexts (i + bs + k * bs) (i + bs + k * bs + bs))) = Inr cs'"
    proof (intro allI impI)
      fix k assume k: "k < length (snd ?L')"
      then have "Suc k < length (snd (batch_loop llmFn rls contexts bs i st acc))"
        using continue(3) by simp
      from less.prems [rule_format, OF this]
      show "\<exists>cs'. batch_result (snd (snd ?L' ! k))
             (map id' (slice contexts (i + bs + k * bs) (i + bs + k * bs + bs))) = Inr cs'"
        using continue(3) by (simp add: ac_simps)
    qed
    from less.hyps [OF d this] show ?thesis
      using continue(3) ceil_div_step [OF assms continue(1)] by simp
  qed
qed

lemma bluebookify_run:
  assumes v: "valid_options resolveLlm opts"
  obtains (nospans) "spans_of text opts = []"
      "bluebookify resolveLlm st text (Some opts)
         = Some (Inr \<lparr> text_r = text, corrections = [], unchanged = True \<rparr>, [])"
  | (looped) llmFn outcome where "0 < batch_size_of opts" "spans_of text opts \<noteq> []"
      "bluebookify resolveLlm st text (Some opts)
         = Some (outcome,
                 snd (batch_loop llmFn (rules opts) (spans_of text opts) (batch_size_of opts) 0 st []))"
      "\<And>e. fst (batch_loop llmFn (rules opts) (spans_of text opts) (batch_size_of opts) 0 st []) = Inl e
            \<Longrightarrow> outcome = Inl e"
      "(\<exists>r. outcome = Inr r) \<Longrightarrow>
         \<exists>r. fst (batch_loop llmFn (rules opts) (spans_of text opts) (batch_size_of opts) 0 st []) = Inr r"
proof -
  from extractCitations_invariants [of "text" "context_size_of opts"] obtain spans where
    ex: "extractCitations text (context_size_of opts) = Some spans" by blast
  have sp: "spans_of text opts = spans" using ex by (simp add: spans_of_def)
  show ?thesis
  proof (cases "spans = []")
    case True
    have "bluebookify resolveLlm st text (Some opts)
         = Some (Inr \<lparr> text_r = text, corrections = [], unchanged = True \<rparr>, [])"
      by (rule bluebookify_valid [OF v, of st "text"]) (simp add: ex True)
    then show ?thesis using nospans sp True by simp
  next
    case False
    from v obtain llmFn where l: "resolveLlm opts = Inr llmFn"
      unfolding valid_options_def by blast
    have pos: "0 < batch_size_of opts"
      by (rule bluebookify_valid [OF v, of st "text"])
    let ?L = "batch_loop llmFn (rules opts) spans (batch_size_of opts) 0 st []"
    obtain res calls where b: "?L = (res, calls)" by (cases ?L)
    note e = bluebookify_eval [OF v l ex False b]
    show ?thesis
    proof (cases res)
      case (Inl err)
      have r: "bluebookify resolveLlm st text (Some opts) = Some (Inl err, snd ?L)"
        using e Inl b by simp
      show ?thesis
        by (rule looped [where llmFn = llmFn and outcome = "Inl err"]) (use pos False sp r b Inl in simp_all)
    next
      case (Inr allc)
      show ?thesis
      proof (cases "applyCorrections text spans allc")
        case a: (Inl err)
        have r: "bluebookify resolveLlm st text (Some opts) = Some (Inl err, snd ?L)"
          using e Inr a b by simp
        show ?thesis
          by (rule looped [where llmFn = llmFn and outcome = "Inl err"]) (use pos False sp r b Inr in simp_all)
      next
        case a: (Inr ar)
        let ?o = "Inr \<lparr> text_r = text_a ar, corrections = appliedCorrections ar,
                        unchanged = (appliedCorrections ar = []) \<rparr>"
        have r: "bluebookify resolveLlm st text (Some opts) = Some (?o, snd ?L)"
          using e Inr a b by simp
        show ?thesis
          by (rule looped [where llmFn = llmFn and outcome = ?o]) (use pos False sp r b Inr in simp_all)
      qed
    qed
  qed
qed

lemma batch_ids_slice:
  "map id' (slice (spans_of text opts) (0 + k * B) (0 + k * B + B))
   = batch_ids (length (spans_of text opts)) B k"
  using batch_of_ids [of "text" opts B k] by (simp add: batch_of_slice batch_ids_def)


subsection \<open>The context of a span\<close>

lemma find_WS:
  "find_from WS_RE pre suf = None \<longleftrightarrow> (\<forall>x\<in>set suf. \<not> is_space x)"
  "find_from WS_RE pre suf = Some (zs, ze) \<Longrightarrow>
     \<exists>u c v. suf = u @ c # v \<and> (\<forall>x\<in>set u. \<not> is_space x) \<and> is_space c \<and> fst zs = rev u @ pre"
proof -
  show "find_from WS_RE pre suf = None \<longleftrightarrow> (\<forall>x\<in>set suf. \<not> is_space x)"
    by (induction suf arbitrary: pre) (auto simp: WS_RE_def match_at_def)
  show "find_from WS_RE pre suf = Some (zs, ze) \<Longrightarrow>
     \<exists>u c v. suf = u @ c # v \<and> (\<forall>x\<in>set u. \<not> is_space x) \<and> is_space c \<and> fst zs = rev u @ pre"
  proof (induction suf arbitrary: pre)
    case Nil
    then show ?case by (simp add: WS_RE_def match_at_def)
  next
    case (Cons c cs)
    show ?case
    proof (cases "is_space c")
      case True
      then have "zs = (pre, c # cs)" using Cons.prems by (simp add: WS_RE_def match_at_def)
      then have "c # cs = [] @ c # cs \<and> (\<forall>x\<in>set []. \<not> is_space x) \<and> is_space c \<and> fst zs = rev [] @ pre"
        using True by simp
      then show ?thesis by blast
    next
      case False
      then have "find_from WS_RE (c # pre) cs = Some (zs, ze)"
        using Cons.prems by (simp add: WS_RE_def match_at_def)
      from Cons.IH [OF this] obtain u d v where
        "cs = u @ d # v" "\<forall>x\<in>set u. \<not> is_space x" "is_space d" "fst zs = rev u @ c # pre" by blast
      then have "c # cs = (c # u) @ d # v \<and> (\<forall>x\<in>set (c # u). \<not> is_space x) \<and> is_space d
                 \<and> fst zs = rev (c # u) @ pre"
        using False by simp
      then show ?thesis by blast
    qed
  qed
qed

lemma star_cls_complete:
  "\<forall>x\<in>set cs. q x \<Longrightarrow> length cs \<le> n \<Longrightarrow>
   (rev cs @ p, []) \<in> set (star_ends (ends (Cls q)) n (p, cs))"
proof (induction cs arbitrary: p n)
  case Nil
  then show ?case by (cases n) simp_all
next
  case (Cons c cs)
  from Cons.prems(2) obtain n' where n: "n = Suc n'" "length cs \<le> n'" by (cases n) auto
  have i: "(rev cs @ c # p, []) \<in> set (star_ends (ends (Cls q)) n' (c # p, cs))"
    using Cons.prems(1) n(2) by (intro Cons.IH) simp_all
  have f: "ends (Cls q) (p, c # cs) = [(c # p, cs)]" using Cons.prems(1) by simp
  have "star_ends (ends (Cls q)) (Suc n') (p, c # cs)
        = star_ends (ends (Cls q)) n' (c # p, cs) @ [(p, c # cs)]"
    unfolding star_ends.simps f by (simp del: ends.simps)
  then show ?case unfolding n(1) using i by (simp del: ends.simps)
qed

lemma star_cls_sound:
  assumes "z' \<in> set (ends (Star (Cls q)) z)" "snd z' = []"
  shows "\<forall>x\<in>set (snd z). q x"
proof -
  from ends_sound [OF assms(1)] obtain w where
    w: "w \<in> lang (Star (Cls q))" "moved z w z'" by blast
  have "snd z = w" using w(2) assms(2) by (simp add: moved_def)
  moreover have "\<forall>x\<in>set w. chars (Star (Cls q)) x" using lang_chars [OF w(1)] by blast
  ultimately show ?thesis by simp
qed

lemma match_TRAIL:
  "match_at TRAIL_RE (pre, suf) \<noteq> None \<longleftrightarrow>
     (\<exists>c cs. suf = c # cs \<and> is_space c \<and> (\<forall>x\<in>set cs. \<not> is_space x))"
proof (cases suf)
  case Nil
  then show ?thesis by (simp add: match_at_def TRAIL_RE_def)
next
  case (Cons c cs)
  let ?N = "Cls (\<lambda>c. \<not> is_space c)"
  show ?thesis
  proof (cases "is_space c")
    case False
    then show ?thesis using Cons by (simp add: match_at_def TRAIL_RE_def)
  next
    case True
    have e: "set (ends TRAIL_RE (pre, suf))
             = {z' \<in> set (ends (Star ?N) (c # pre, cs)). snd z' = []}"
      using Cons True by (auto simp: TRAIL_RE_def split: if_splits)
    have "set (ends TRAIL_RE (pre, suf)) \<noteq> {} \<longleftrightarrow> (\<forall>x\<in>set cs. \<not> is_space x)"
    proof
      assume "set (ends TRAIL_RE (pre, suf)) \<noteq> {}"
      then obtain z' where "z' \<in> set (ends (Star ?N) (c # pre, cs))" "snd z' = []"
        unfolding e by blast
      from star_cls_sound [OF this] show "\<forall>x\<in>set cs. \<not> is_space x" by simp
    next
      assume a: "\<forall>x\<in>set cs. \<not> is_space x"
      have "(rev cs @ c # pre, []) \<in> set (star_ends (ends ?N) (length cs) (c # pre, cs))"
        by (rule star_cls_complete [OF a]) simp
      then have "(rev cs @ c # pre, []) \<in> set (ends (Star ?N) (c # pre, cs))" by simp
      then show "set (ends TRAIL_RE (pre, suf)) \<noteq> {}" unfolding e by auto
    qed
    moreover have "match_at TRAIL_RE (pre, suf) \<noteq> None \<longleftrightarrow> set (ends TRAIL_RE (pre, suf)) \<noteq> {}"
      by (simp add: match_at_def split: list.splits)
    ultimately show ?thesis using Cons True by simp
  qed
qed

lemma find_TRAIL:
  "find_from TRAIL_RE pre suf = None \<longleftrightarrow> (\<forall>x\<in>set suf. \<not> is_space x)"
  "find_from TRAIL_RE pre suf = Some (zs, ze) \<Longrightarrow>
     \<exists>u c v. suf = u @ c # v \<and> is_space c \<and> (\<forall>x\<in>set v. \<not> is_space x) \<and> fst zs = rev u @ pre"
proof -
  show "find_from TRAIL_RE pre suf = None \<longleftrightarrow> (\<forall>x\<in>set suf. \<not> is_space x)"
  proof (induction suf arbitrary: pre)
    case Nil
    have "match_at TRAIL_RE (pre, []) = None" by (simp add: match_at_def TRAIL_RE_def)
    then show ?case by simp
  next
    case (Cons c cs)
    show ?case
    proof (cases "match_at TRAIL_RE (pre, c # cs)")
      case None
      then have n: "\<not> (is_space c \<and> (\<forall>x\<in>set cs. \<not> is_space x))"
        using match_TRAIL [of pre "c # cs"] by simp
      have "find_from TRAIL_RE pre (c # cs) = find_from TRAIL_RE (c # pre) cs"
        using None by simp
      then show ?thesis using Cons.IH [of "c # pre"] n by auto
    next
      case (Some z')
      then have "is_space c" using match_TRAIL [of pre "c # cs"] by simp
      then show ?thesis using Some by simp
    qed
  qed
  show "find_from TRAIL_RE pre suf = Some (zs, ze) \<Longrightarrow>
     \<exists>u c v. suf = u @ c # v \<and> is_space c \<and> (\<forall>x\<in>set v. \<not> is_space x) \<and> fst zs = rev u @ pre"
  proof (induction suf arbitrary: pre)
    case Nil
    have "match_at TRAIL_RE (pre, []) = None" by (simp add: match_at_def TRAIL_RE_def)
    then show ?case using Nil by simp
  next
    case (Cons c cs)
    show ?case
    proof (cases "match_at TRAIL_RE (pre, c # cs)")
      case (Some z')
      then have m: "is_space c" "\<forall>x\<in>set cs. \<not> is_space x"
        using match_TRAIL [of pre "c # cs"] by simp_all
      have "zs = (pre, c # cs)" using Some Cons.prems by simp
      then have "c # cs = [] @ c # cs \<and> is_space c \<and> (\<forall>x\<in>set cs. \<not> is_space x)
                 \<and> fst zs = rev [] @ pre"
        using m by simp
      then show ?thesis by blast
    next
      case None
      then have "find_from TRAIL_RE (c # pre) cs = Some (zs, ze)" using Cons.prems by simp
      from Cons.IH [OF this] obtain u d v where
        "cs = u @ d # v" "is_space d" "\<forall>x\<in>set v. \<not> is_space x" "fst zs = rev u @ c # pre"
        by blast
      then have "c # cs = (c # u) @ d # v \<and> is_space d \<and> (\<forall>x\<in>set v. \<not> is_space x)
                 \<and> fst zs = rev (c # u) @ pre"
        by simp
      then show ?thesis by blast
    qed
  qed
qed

lemma before_trim:
  "(case search WS_RE w of Some idx \<Rightarrow> trimStart (drop idx w) | None \<Rightarrow> w)
   = (if \<exists>c\<in>set w. is_space c then dropWhile is_space (dropWhile (\<lambda>c. \<not> is_space c) w) else w)"
proof (cases "find_from WS_RE [] w")
  case None
  then have "\<forall>x\<in>set w. \<not> is_space x" using find_WS(1) [of "[]" w] by simp
  then show ?thesis using None by (simp add: search_def)
next
  case (Some p)
  obtain zs ze where p: "p = (zs, ze)" by (cases p)
  from find_WS(2) [of "[]" w zs ze] Some p obtain u c v where
    w: "w = u @ c # v" and u: "\<forall>x\<in>set u. \<not> is_space x" and c: "is_space c"
    and z: "fst zs = rev u" by auto
  have s: "search WS_RE w = Some (length u)" using Some p z by (simp add: search_def)
  have d: "dropWhile (\<lambda>c. \<not> is_space c) w = c # v"
    unfolding w using u c by (simp add: dropWhile_append3)
  have "\<exists>c\<in>set w. is_space c" using w c by auto
  then show ?thesis unfolding s d using w by (simp add: trimStart_def)
qed

lemma after_trim:
  "(case search TRAIL_RE w of
      Some idx \<Rightarrow> if idx > 0 then slice w 0 idx else w
    | None \<Rightarrow> w)
   = (if \<exists>c\<in>set (tl w). is_space c then rev (tl (dropWhile (\<lambda>c. \<not> is_space c) (rev w))) else w)"
proof (cases "find_from TRAIL_RE [] w")
  case None
  then have "\<forall>x\<in>set w. \<not> is_space x" using find_TRAIL(1) [of "[]" w] by simp
  then have "\<forall>x\<in>set (tl w). \<not> is_space x" by (cases w) simp_all
  then show ?thesis using None by (simp add: search_def)
next
  case (Some p)
  obtain zs ze where p: "p = (zs, ze)" by (cases p)
  from find_TRAIL(2) [of "[]" w zs ze] Some p obtain u c v where
    w: "w = u @ c # v" and c: "is_space c" and v: "\<forall>x\<in>set v. \<not> is_space x"
    and z: "fst zs = rev u" by auto
  have s: "search TRAIL_RE w = Some (length u)" using Some p z by (simp add: search_def)
  have r: "rev w = rev v @ c # rev u" using w by simp
  have d: "dropWhile (\<lambda>c. \<not> is_space c) (rev w) = c # rev u"
    unfolding r using v c by (simp add: dropWhile_append3)
  show ?thesis
  proof (cases "u = []")
    case True
    then have "\<forall>x\<in>set (tl w). \<not> is_space x" using w v by simp
    then show ?thesis unfolding s using True by simp
  next
    case False
    then have "tl w = tl u @ c # v" using w by simp
    then have "\<exists>x\<in>set (tl w). is_space x" using c by auto
    moreover have "slice w 0 (length u) = u" using w by (simp add: slice_def)
    ultimately show ?thesis unfolding s d using False by simp
  qed
qed

lemma mk_context_before: "before (mk_context text n i m) = before_context text n (start_m m)"
proof -
  have "0 < start_m m - n \<longleftrightarrow> n < start_m m" by auto
  then show ?thesis
    unfolding mk_context_def before_context_def Let_def
    by (simp add: before_trim)
qed

lemma mk_context_after:
  "after (mk_context text n i m) = after_context text n (end_m m)"
proof -
  have a: "slice text (end_m m) (min (length text) (end_m m + n)) = slice text (end_m m) (end_m m + n)"
    using slice_min_length [of "text" "end_m m" "end_m m + n"] by (simp add: min.commute)
  have b: "min (length text) (end_m m + n) < length text \<longleftrightarrow> end_m m + n < length text"
    by auto
  show ?thesis
    unfolding mk_context_def after_context_def Let_def a b
    by (simp add: after_trim)
qed

lemma extract_context:
  "extractCitations ex_context_text 4
   = Some [\<lparr> id' = 0, original = js ''Id.'', before = js ''bb '', after = js '' cc'',
              start = 6, end' = 9 \<rparr>]"
  by (simp add: ex_context_text_def extract_defs rx_defs re_defs str_defs chr_defs)

lemma extract_boundary:
  "extractCitations ex_boundary_text 3
   = Some [\<lparr> id' = 0, original = js ''Id.'', before = [], after = [], start = 6, end' = 9 \<rparr>]"
  by (simp add: ex_boundary_text_def extract_defs rx_defs re_defs str_defs chr_defs)

lemma extractCitations_form:
  assumes "extractCitations text n = Some spans" "c \<in> set spans"
  shows "\<exists>i m. c = mk_context text n i m"
proof -
  from assms(1) obtain fused where
    "spans = map (\<lambda>(i, m). mk_context text n i m) (enumerate 0 fused)"
    by (auto simp: extractCitations_def Let_def split: option.splits)
  then show ?thesis using assms(2) by auto
qed

lemma mk_context_offsets:
  "start (mk_context text n i m) = start_m m" "end' (mk_context text n i m) = end_m m"
  by (simp_all add: mk_context_def Let_def)

lemma before_context_length: "length (before_context text n s) \<le> n"
proof -
  have "length (slice text (s - n) s) \<le> n" by (simp add: slice_def)
  moreover have "length (dropWhile is_space (dropWhile (\<lambda>c. \<not> is_space c) w)) \<le> length w" for w
    using length_dropWhile_le [of is_space "dropWhile (\<lambda>c. \<not> is_space c) w"]
          length_dropWhile_le [of "\<lambda>c. \<not> is_space c" w] by simp
  ultimately show ?thesis
    unfolding before_context_def Let_def by (auto intro: order_trans)
qed

lemma after_context_length: "length (after_context text n e) \<le> n"
proof -
  have "length (slice text e (e + n)) \<le> n" by (simp add: slice_def)
  moreover have "length (rev (tl (dropWhile (\<lambda>c. \<not> is_space c) (rev w)))) \<le> length w" for w
    using length_dropWhile_le [of "\<lambda>c. \<not> is_space c" "rev w"] by simp
  ultimately show ?thesis
    unfolding after_context_def Let_def by (auto intro: order_trans)
qed

lemma context_edges:
  "before_context text n 0 = []"
  "after_context text n (length text) = []"
  "before_context text 0 s = []"
  "after_context text 0 e = []"
  by (simp_all add: before_context_def after_context_def slice_def)


subsection \<open>Claim about the context of a span\<close>

text \<open>
  Claim C8, amended. For every text and context width \<open>n\<close>, \<open>extractCitations\<close> returns, and
  for each span: \<open>before\<close> is the window of at most \<open>n\<close> code units that ends at the start
  of the span; when the window was truncated (\<open>n < start\<close>) and holds white space, it
  loses everything up to and including its first run of white space, whether the cut
  fell inside a word or not; otherwise it is kept whole. \<open>after\<close> is the window of at
  most \<open>n\<close> code units from the end of the span; when it was truncated
  (\<open>end + n < length text\<close>) and holds white space after its first code unit, it is cut
  before its last white space; otherwise it is kept whole. Both have at most \<open>n\<close> code
  units; a span at the start of the text has an empty \<open>before\<close>, a span at the end an
  empty \<open>after\<close>, and with \<open>n = 0\<close> both are empty.
\<close>
theorem extractCitations_contexts:
  "\<exists>spans. extractCitations text n = Some spans \<and>
     (\<forall>c\<in>set spans.
        before c = before_context text n (start c) \<and>
        after c = after_context text n (end' c) \<and>
        length (before c) \<le> n \<and> length (after c) \<le> n \<and>
        (start c = 0 \<longrightarrow> before c = []) \<and>
        (end' c = length text \<longrightarrow> after c = []) \<and>
        (n = 0 \<longrightarrow> before c = [] \<and> after c = []))"
proof -
  from extractCitations_invariants [of "text" n] obtain spans where
    run: "extractCitations text n = Some spans" by blast
  have "before c = before_context text n (start c) \<and>
        after c = after_context text n (end' c) \<and>
        length (before c) \<le> n \<and> length (after c) \<le> n \<and>
        (start c = 0 \<longrightarrow> before c = []) \<and>
        (end' c = length text \<longrightarrow> after c = []) \<and>
        (n = 0 \<longrightarrow> before c = [] \<and> after c = [])" if "c \<in> set spans" for c
  proof -
    from extractCitations_form [OF run that] obtain i m where c: "c = mk_context text n i m"
      by blast
    have b: "before c = before_context text n (start c)"
      unfolding c mk_context_offsets by (rule mk_context_before)
    have a: "after c = after_context text n (end' c)"
      unfolding c mk_context_offsets by (rule mk_context_after)
    show ?thesis
      unfolding a b using before_context_length after_context_length context_edges by simp
  qed
  then show ?thesis using run by blast
qed

theorem extractCitations_contexts_witness:
  "extractCitations ex_context_text 4
     = Some [\<lparr> id' = 0, original = js ''Id.'', before = js ''bb '', after = js '' cc'',
                start = 6, end' = 9 \<rparr>]
   \<and> before_context ex_context_text 4 6 = js ''bb ''
   \<and> after_context ex_context_text 4 9 = js '' cc''"
proof -
  let ?c = "\<lparr> id' = 0, original = js ''Id.'', before = js ''bb '', after = js '' cc'',
              start = 6, end' = 9 \<rparr>"
  from extractCitations_contexts [of ex_context_text 4]
  have "\<forall>c\<in>set [?c]. before c = before_context ex_context_text 4 (start c) \<and>
        after c = after_context ex_context_text 4 (end' c)"
    unfolding extract_context by simp
  then have "before ?c = before_context ex_context_text 4 (start ?c)"
    and "after ?c = after_context ex_context_text 4 (end' ?c)" by simp_all
  then have "before_context ex_context_text 4 6 = js ''bb ''"
    and "after_context ex_context_text 4 9 = js '' cc''" by simp_all
  then show ?thesis using extract_context by simp
qed

text \<open>
  Claim C8 as stated does not hold: in \<^verbatim>\<open>aa bb Id.\<close> with width 3 the window before the
  span is \<^verbatim>\<open>bb \<close> and the cut falls after a space, at the start of a word, not inside
  one; yet the window is trimmed, and \<open>before\<close> is empty.
\<close>

theorem context_trimmed_at_word_boundary:
  "extractCitations ex_boundary_text 3
     = Some [\<lparr> id' = 0, original = js ''Id.'', before = [], after = [], start = 6, end' = 9 \<rparr>]
   \<and> slice ex_boundary_text (6 - 3) 6 = js ''bb ''
   \<and> is_space (ex_boundary_text ! (6 - 3 - 1))
   \<and> \<not> is_space (ex_boundary_text ! (6 - 3))"
  by (simp add: extract_boundary) (simp add: ex_boundary_text_def str_defs chr_defs)


subsection \<open>Claims about the pipeline\<close>

text \<open>
  Claim C2. For every text in which the extractor finds no span, and every valid
  configuration, \<open>bluebookify\<close> returns the text as it was, with no correction and
  \<open>unchanged\<close> set, and the log of calls of the oracle is empty: the oracle is never called.
\<close>
theorem bluebookify_without_spans:
  assumes "valid_options resolveLlm opts"
      and "extractCitations text (context_size_of opts) = Some []"
  shows "bluebookify resolveLlm st text (Some opts)
           = Some (Inr \<lparr> text_r = text, corrections = [], unchanged = True \<rparr>, [])"
  by (rule bluebookify_valid [OF assms(1), of st "text"]) (simp add: assms(2))

theorem bluebookify_without_spans_witness:
  "valid_options ex_resolve_down ex_opts
   \<and> extractCitations (js ''plain text'') (context_size_of ex_opts) = Some []
   \<and> bluebookify ex_resolve_down () (js ''plain text'') (Some ex_opts)
       = Some (Inr \<lparr> text_r = js ''plain text'', corrections = [], unchanged = True \<rparr>, [])"
proof -
  have e: "extractCitations (js ''plain text'') (context_size_of ex_opts) = Some []"
    by (simp add: ex_opts_sizes extract_plain)
  from bluebookify_without_spans [OF ex_opts_valid(1) e, of "()"] show ?thesis
    using ex_opts_valid(1) e by simp
qed

text \<open>
  Claim C3, amended. For every text and every valid configuration, with \<open>N\<close> extracted
  spans and batch size \<open>B\<close>, the run returns, and in the log of its oracle calls, which
  is in the order of the calls: the \<open>k\<close>-th call carries the messages built from the
  \<open>k\<close>-th batch; its data message is the user message, and it holds one line for each
  index from \<open>k * B\<close> up to \<open>min ((k + 1) * B) N\<close>, labelled with that index, which is the
  id of the span, and no other line (\<open>data_message\<close>); a call is followed by another only
  when its reply was accepted; a batch whose reply fails (the oracle's error, the
  parser's, the id check's) is the last call and its error is the outcome of the run;
  when no batch fails the run makes exactly \<open>(N + B - 1) div B\<close> calls, as every run
  that succeeds does, and no run makes more.
\<close>
theorem bluebookify_batches:
  assumes "valid_options resolveLlm opts"
  shows "\<exists>outcome calls.
     bluebookify resolveLlm st text (Some opts) = Some (outcome, calls) \<and>
     (\<forall>k<length calls.
        fst (calls ! k) = buildMessages (batch_of (spans_of text opts) (batch_size_of opts) k) (rules opts) \<and>
        length (fst (calls ! k)) = 2 \<and>
        role (fst (calls ! k) ! 1) = js ''user'' \<and>
        content (fst (calls ! k) ! 1)
          = data_message (spans_of text opts)
              (batch_ids (length (spans_of text opts)) (batch_size_of opts) k) \<and>
        map id' (batch_of (spans_of text opts) (batch_size_of opts) k)
          = batch_ids (length (spans_of text opts)) (batch_size_of opts) k) \<and>
     (\<forall>k. Suc k < length calls \<longrightarrow>
        (\<exists>cs. batch_result (snd (calls ! k))
                (batch_ids (length (spans_of text opts)) (batch_size_of opts) k) = Inr cs)) \<and>
     (\<forall>k<length calls. \<forall>e.
        batch_result (snd (calls ! k))
          (batch_ids (length (spans_of text opts)) (batch_size_of opts) k) = Inl e
        \<longrightarrow> Suc k = length calls \<and> outcome = Inl e) \<and>
     ((\<forall>k<length calls.
         \<exists>cs. batch_result (snd (calls ! k))
                (batch_ids (length (spans_of text opts)) (batch_size_of opts) k) = Inr cs)
        \<longrightarrow> length calls
              = (length (spans_of text opts) + batch_size_of opts - 1) div batch_size_of opts) \<and>
     length calls \<le> (length (spans_of text opts) + batch_size_of opts - 1) div batch_size_of opts \<and>
     ((\<exists>r. outcome = Inr r)
        \<longrightarrow> length calls
              = (length (spans_of text opts) + batch_size_of opts - 1) div batch_size_of opts)"
  using assms
proof (cases rule: bluebookify_run [where ?st = st and ?text = "text"])
  case nospans
  have "(batch_size_of opts - 1) div batch_size_of opts = 0"
    by (cases "batch_size_of opts = 0") simp_all
  then show ?thesis using nospans by simp
next
  case (looped llmFn outcome)
  let ?B = "batch_size_of opts" and ?S = "spans_of text opts"
  let ?N = "length ?S"
  let ?L = "batch_loop llmFn (rules opts) ?S ?B 0 st []"
  let ?calls = "snd ?L"
  let ?C = "(?N + ?B - 1) div ?B"
  have req: "fst (?calls ! k) = buildMessages (batch_of ?S ?B k) (rules opts)"
    if "k < length ?calls" for k
    using batch_loop_requests [OF looped(1) that] unfolding batch_of_slice by simp
  have msg: "length (fst (?calls ! k)) = 2 \<and> role (fst (?calls ! k) ! 1) = js ''user'' \<and>
             content (fst (?calls ! k) ! 1) = data_message ?S (batch_ids ?N ?B k)"
    if "k < length ?calls" for k
    unfolding req [OF that] buildMessages_data batch_data_message batch_ids_def by simp
  have ids: "map id' (batch_of ?S ?B k) = batch_ids ?N ?B k" for k
    by (simp add: batch_of_ids batch_ids_def)
  have a: "fst (?calls ! k) = buildMessages (batch_of ?S ?B k) (rules opts) \<and>
        length (fst (?calls ! k)) = 2 \<and>
        role (fst (?calls ! k) ! 1) = js ''user'' \<and>
        content (fst (?calls ! k) ! 1) = data_message ?S (batch_ids ?N ?B k) \<and>
        map id' (batch_of ?S ?B k) = batch_ids ?N ?B k"
    if "k < length ?calls" for k
    using req [OF that] msg [OF that] ids by simp
  have b: "\<exists>cs. batch_result (snd (?calls ! k)) (batch_ids ?N ?B k) = Inr cs"
    if "Suc k < length ?calls" for k
    using batch_loop_accepts [OF looped(1) that] unfolding batch_ids_slice .
  have c: "Suc k = length ?calls \<and> outcome = Inl e"
    if k: "k < length ?calls" and f: "batch_result (snd (?calls ! k)) (batch_ids ?N ?B k) = Inl e"
    for k e
  proof -
    have "\<not> Suc k < length ?calls" using b [of k] f by auto
    then have "Suc k = length ?calls" using k by simp
    moreover have "fst ?L = Inl e"
      by (rule batch_loop_failure [OF looped(1) k]) (simp only: batch_ids_slice f)
    ultimately show ?thesis using looped(4) by simp
  qed
  have d: "length ?calls = ?C"
    if "\<forall>k<length ?calls. \<exists>cs. batch_result (snd (?calls ! k)) (batch_ids ?N ?B k) = Inr cs"
  proof -
    have t: "\<forall>k<length ?calls. \<exists>cs. batch_result (snd (?calls ! k))
               (map id' (slice ?S (0 + k * ?B) (0 + k * ?B + ?B))) = Inr cs"
      unfolding batch_ids_slice by (rule that)
    have "length ?calls = (?N - 0 + ?B - 1) div ?B"
      by (rule batch_loop_all_accepted [OF looped(1) t])
    then show ?thesis by simp
  qed
  have cnt: "length ?calls \<le> (?N - 0 + ?B - 1) div ?B
       \<and> ((\<exists>r. fst ?L = Inr r) \<longrightarrow> length ?calls = (?N - 0 + ?B - 1) div ?B)"
    by (rule batch_loop_count [OF looped(1)])
  have e: "length ?calls \<le> ?C" using cnt by simp
  have f: "length ?calls = ?C" if "\<exists>r. outcome = Inr r"
    using cnt looped(5) [OF that] by simp
  show ?thesis
    apply (rule exI [of _ outcome])
    apply (rule exI [of _ ?calls])
    apply (intro conjI allI impI)
    apply (rule looped(3))
    using a b c d e f apply blast+
    done
qed

theorem bluebookify_batches_witness:
  "valid_options ex_resolve_count ex_opts \<and>
   (\<exists>outcome calls. bluebookify ex_resolve_count 0 ex_two_ids (Some ex_opts) = Some (outcome, calls)
     \<and> length calls = 2
     \<and> role (fst (calls ! 1) ! 1) = js ''user''
     \<and> content (fst (calls ! 1) ! 1)
         = [91] @ js ''1'' @ [93, 32] @ [8220] @ js ''Id. '' @ [8221]
           @ [32, 91] @ js ''Id.'' @ [93, 32] @ [8220] @ [8221]
     \<and> map id' (batch_of (spans_of ex_two_ids ex_opts) (batch_size_of ex_opts) 1) = [1])"
proof -
  let ?calls = "[(buildMessages (slice ex_two_spans 0 (Suc 0)) None, Inr (ex_reply_for (js ''0''))),
       (buildMessages (slice ex_two_spans (Suc 0) (Suc (Suc 0))) None, Inr (ex_reply_for (js ''1'')))] :: call list"
  from bluebookify_batches [OF ex_opts_valid(2), of 0 ex_two_ids]
  obtain outcome calls where
    run: "bluebookify ex_resolve_count 0 ex_two_ids (Some ex_opts) = Some (outcome, calls)"
    and a: "\<forall>k<length calls.
        fst (calls ! k) = buildMessages (batch_of (spans_of ex_two_ids ex_opts) (batch_size_of ex_opts) k) (rules ex_opts) \<and>
        length (fst (calls ! k)) = 2 \<and>
        role (fst (calls ! k) ! 1) = js ''user'' \<and>
        content (fst (calls ! k) ! 1)
          = data_message (spans_of ex_two_ids ex_opts)
              (batch_ids (length (spans_of ex_two_ids ex_opts)) (batch_size_of ex_opts) k) \<and>
        map id' (batch_of (spans_of ex_two_ids ex_opts) (batch_size_of ex_opts) k)
          = batch_ids (length (spans_of ex_two_ids ex_opts)) (batch_size_of ex_opts) k"
    by blast
  have c: "calls = ?calls" using run unfolding run_count by simp
  have len: "length calls = 2" unfolding c by simp
  then have k: "1 < length calls" by simp
  have ids: "batch_ids (length (spans_of ex_two_ids ex_opts)) (batch_size_of ex_opts) 1 = [1]"
    by (simp add: batch_ids_def spans_of_two ex_opts_sizes ex_two_spans_def)
  have dm: "data_message (spans_of ex_two_ids ex_opts) [1]
        = [91] @ js ''1'' @ [93, 32] @ [8220] @ js ''Id. '' @ [8221]
           @ [32, 91] @ js ''Id.'' @ [93, 32] @ [8220] @ [8221]"
    by (simp add: data_message_def labelled_line_def spans_of_two ex_two_spans_def show_nat_1
          del: show_nat.simps)
  from a [rule_format, OF k]
  have r: "role (fst (calls ! 1) ! 1) = js ''user''"
    and m: "content (fst (calls ! 1) ! 1)
         = [91] @ js ''1'' @ [93, 32] @ [8220] @ js ''Id. '' @ [8221]
           @ [32, 91] @ js ''Id.'' @ [93, 32] @ [8220] @ [8221]"
    and i: "map id' (batch_of (spans_of ex_two_ids ex_opts) (batch_size_of ex_opts) 1) = [1]"
    unfolding ids dm by blast+
  show ?thesis
    by (intro conjI exI) (rule ex_opts_valid(2), rule run, rule len, rule r, rule m, rule i)
qed

text \<open>
  Claim C3 as stated does not hold: with two spans and batches of one, an oracle that
  fails is called once, not twice.
\<close>

theorem failing_run_makes_fewer_calls:
  "map_option (length \<circ> snd) (bluebookify ex_resolve_down () ex_two_ids (Some ex_opts)) = Some 1
   \<and> (length (spans_of ex_two_ids ex_opts) + batch_size_of ex_opts - 1) div batch_size_of ex_opts = 2"
  by (simp add: run_down spans_of_two ex_opts_sizes ex_two_spans_def)

text \<open>
  Claim C4, amended. When the parsed reply of a batch holds an id that is not of the
  batch, the run fails with \<open>UnexpectedId\<close> naming the first such id of the reply. When
  it holds no such id and some id of the batch has no correction, the run fails with
  \<open>MissingBatchId\<close> naming the first such id of the batch. In both cases the run returns
  an error and no text.
\<close>
theorem bluebookify_batch_ids:
  assumes "bluebookify resolveLlm st text (Some opts) = Some (outcome, calls)"
      and "k < length calls"
      and "snd (calls ! k) = Inr response"
      and "parseResponse response = Inr cs"
  shows "(foreign_ids cs (map id' (batch_of (spans_of text opts) (batch_size_of opts) k)) \<noteq> []
            \<longrightarrow> outcome = Inl (UnexpectedId
                   (hd (foreign_ids cs (map id' (batch_of (spans_of text opts) (batch_size_of opts) k))))))
       \<and> (foreign_ids cs (map id' (batch_of (spans_of text opts) (batch_size_of opts) k)) = []
          \<and> missing_ids cs (map id' (batch_of (spans_of text opts) (batch_size_of opts) k)) \<noteq> []
            \<longrightarrow> outcome = Inl (MissingBatchId
                   (hd (missing_ids cs (map id' (batch_of (spans_of text opts) (batch_size_of opts) k))))))"
  using assms(1)
proof (cases rule: bluebookify_log)
  case quiet
  then show ?thesis using assms(2) by simp
next
  case (looped llmFn)
  let ?B = "batch_size_of opts" and ?S = "spans_of text opts"
  let ?E = "map id' (batch_of ?S ?B k)"
  let ?loop = "batch_loop llmFn (rules opts) ?S ?B 0 st []"
  have k: "k < length (snd ?loop)" using assms(2) looped(2) by simp
  have r: "snd (snd ?loop ! k) = Inr response" using assms(3) looped(2) by simp
  have fail: "outcome = Inl e" if "validateBatchIds cs ?E = Inl e" for e
  proof -
    have "batch_result (snd (snd ?loop ! k)) (map id' (slice ?S (0 + k * ?B) (0 + k * ?B + ?B))) = Inl e"
      unfolding r batch_of_slice [symmetric] using assms(4) that by (simp add: batch_result_def)
    from batch_loop_failure [OF looped(1) k this] show ?thesis by (rule looped(3))
  qed
  show ?thesis
    using fail validateBatchIds_eq [of cs ?E] by auto
qed

theorem bluebookify_batch_ids_witness:
  "\<exists>outcome calls. bluebookify ex_resolve_zero () ex_two_ids (Some ex_opts) = Some (outcome, calls)
     \<and> 1 < length calls
     \<and> snd (calls ! 1) = Inr (ex_reply_for (js ''0''))
     \<and> parseResponse (ex_reply_for (js ''0'')) = Inr [\<lparr> id_c = 0, citation = js ''Id.'' \<rparr>]
     \<and> outcome = Inl (UnexpectedId 0)"
proof -
  let ?calls = "[(buildMessages (slice ex_two_spans 0 (Suc 0)) None, Inr (ex_reply_for (js ''0''))),
       (buildMessages (slice ex_two_spans (Suc 0) (Suc (Suc 0))) None, Inr (ex_reply_for (js ''0'')))] :: call list"
  let ?cs = "[\<lparr> id_c = 0, citation = js ''Id.'' \<rparr>]"
  have k: "1 < length ?calls" by simp
  have r: "snd (?calls ! 1) = Inr (ex_reply_for (js ''0''))" by simp
  have e: "map id' (batch_of (spans_of ex_two_ids ex_opts) (batch_size_of ex_opts) 1) = [1]"
    by (simp add: batch_of_def spans_of_two ex_opts_sizes ex_two_spans_def slice_def)
  have f: "foreign_ids ?cs [1] = [0]" by (simp add: foreign_ids_def)
  note t = bluebookify_batch_ids [OF run_zero k r parse_reply_0]
  have "foreign_ids ?cs [1] \<noteq> [] \<longrightarrow>
        (Inl (UnexpectedId 0) :: error + BluebookifyResult) = Inl (UnexpectedId (hd (foreign_ids ?cs [1])))"
    using conjunct1 [OF t] unfolding e .
  then have "(Inl (UnexpectedId 0) :: error + BluebookifyResult) = Inl (UnexpectedId (hd (foreign_ids ?cs [1])))"
    unfolding f by simp
  then show ?thesis using run_zero k r parse_reply_0 by (simp add: f)
qed

text \<open>
  Claim C4 as stated does not hold: the second batch holds the id 1 only and its reply
  corrects the id 0 only; the id 1 has no correction, and the error names the id 0.
\<close>

theorem missing_id_not_named:
  "map_option fst (bluebookify ex_resolve_zero () ex_two_ids (Some ex_opts)) = Some (Inl (UnexpectedId 0))
   \<and> map_option (\<lambda>r. snd (snd r ! 1)) (bluebookify ex_resolve_zero () ex_two_ids (Some ex_opts))
       = Some (Inr (ex_reply_for (js ''0'')))
   \<and> parseResponse (ex_reply_for (js ''0'')) = Inr [\<lparr> id_c = 0, citation = js ''Id.'' \<rparr>]
   \<and> map id' (batch_of (spans_of ex_two_ids ex_opts) (batch_size_of ex_opts) 1) = [1]
   \<and> missing_ids [\<lparr> id_c = 0, citation = js ''Id.'' \<rparr>] [1] = [1]"
  by (simp add: run_zero parse_reply_0 batch_of_def spans_of_two ex_opts_sizes ex_two_spans_def
        slice_def missing_ids_def)


end
